theory Spec2Isabelle
  imports Complex_Main
begin

section \<open>The task pool of index.ts (class TaskPool)\<close>

text \<open>
  The model follows the second, current copy of the class (the one with
  \<^verbatim>\<open>chunkResultPool\<close> and \<^verbatim>\<open>autoSchedule\<close>).

  JavaScript runs the class on one thread: every public method and every promise
  callback runs to completion before the next one starts.  \<^verbatim>\<open>executorFn\<close> is
  declared \<^verbatim>\<open>async\<close> but contains no \<^verbatim>\<open>await\<close>, so a call of it runs
  synchronously to its end.  The model therefore is a state record, one function per
  method, and one function per promise callback (\<^verbatim>\<open>then\<close>, \<^verbatim>\<open>catch\<close>,
  \<^verbatim>\<open>finally\<close>); the environment chooses when a task body settles and with what.

  The concurrency bound is a JavaScript \<^verbatim>\<open>number\<close> that the class never validates
  or rounds (type \<open>number\<close> below).  A sequence number is a natural number.
  Payloads of type \<^verbatim>\<open>any\<close> (arguments, results, errors) are integers; a function
  value (a task body, a \<^verbatim>\<open>handleDelete\<close>) is the number that names it.  What the
  callbacks of the caller are invoked with is recorded in \<open>calls\<close>.  The task bodies,
  \<^verbatim>\<open>executor\<close> and \<^verbatim>\<open>handleDelete\<close> are taken to return normally; only
  \<^verbatim>\<open>submit\<close> is modelled with a failing outcome.
\<close>

subsection \<open>Data\<close>

type_synonym val = int

text \<open>
  A JavaScript \<^verbatim>\<open>number\<close>: a finite value (every finite double is a rational),
  \<^verbatim>\<open>Infinity\<close>, \<^verbatim>\<open>-Infinity\<close> or \<^verbatim>\<open>NaN\<close>.  The class uses the bound in one
  place only, the test \<^verbatim>\<open>this.runningPool.length < this.concurrency\<close> of the loop:
  \<open>less_number n x\<close> is \<^verbatim>\<open>n < x\<close> for an array length \<open>n\<close>.  Every comparison with
  \<^verbatim>\<open>NaN\<close> is false.
\<close>

datatype number = Finite rat | PosInfinity | NegInfinity | NaN

fun less_number :: "nat \<Rightarrow> number \<Rightarrow> bool" where
  "less_number n (Finite q) = (of_nat n < q)"
| "less_number n PosInfinity = True"
| "less_number n NegInfinity = False"
| "less_number n NaN = False"

text \<open>\<^verbatim>\<open>interface Task { args; body; handleDelete? }\<close> of type.ts.\<close>

record task =
  args :: "val list"
  body :: nat
  handleDelete :: "nat option"

text \<open>\<^verbatim>\<open>Task & { seq: number }\<close>, built by \<^verbatim>\<open>{ ...m, seq: this.index++ }\<close>.\<close>

record seq_task =
  st_args :: "val list"
  st_body :: nat
  st_handleDelete :: "nat option"
  st_seq :: nat

definition with_seq :: "task \<Rightarrow> nat \<Rightarrow> seq_task" where
  "with_seq m n =
     \<lparr>st_args = args m, st_body = body m, st_handleDelete = handleDelete m, st_seq = n\<rparr>"

text \<open>\<^verbatim>\<open>task.map(m => ({ ...m, seq: this.index++ }))\<close>, starting at index \<open>i\<close>.\<close>

primrec number_from :: "nat \<Rightarrow> task list \<Rightarrow> seq_task list" where
  "number_from i [] = []"
| "number_from i (m # ms) = with_seq m i # number_from (Suc i) ms"

text \<open>
  The running proxy is the object literal
  \<^verbatim>\<open>{ body: task.body, args: task.args, seq: task.seq, deleted: false }\<close>.
  It copies three properties of the task; \<^verbatim>\<open>handleDelete\<close> is not among them, so
  the property is absent on every proxy (\<open>p_handleDelete = None\<close> in \<open>launch\<close>).
  \<open>p_id\<close> is the identity of the object; its mutable \<^verbatim>\<open>deleted\<close> flag lives in
  the store \<open>flights\<close> under that identity, because the closure of the promise
  callbacks and \<^verbatim>\<open>runningPool\<close> share the one object.
\<close>

record proxy =
  p_id :: nat
  p_body :: nat
  p_args :: "val list"
  p_seq :: nat
  p_handleDelete :: "nat option"

datatype status = Success | Error

record result =
  r_seq :: nat
  r_result :: val
  r_status :: status

text \<open>
  The promise chain \<^verbatim>\<open>body(...).then(A).catch(B).finally(C)\<close> of one proxy:
  \<open>Pending\<close> until the body settles and A or B has run, \<open>Settled\<close> until C has run.
  C runs in a later microtask than A or B, so other callbacks can run in between.
\<close>

datatype phase = Pending | Settled | Finished

record flight =
  f_proxy :: proxy
  f_deleted :: bool
  f_phase :: phase

text \<open>
  What a call \<^verbatim>\<open>this.submit(chunk)\<close> does: return (a value or a promise that
  fulfils), return a promise that rejects, or throw.  The class never looks at the
  returned value.
\<close>

datatype submit_outcome = Returns | ReturnsRejected | Throws

text \<open>Calls of the caller's functions, with the arguments as they are at the call.\<close>

datatype call =
    BodyCall nat nat "val list"
  | ExecutorCall "result list" "val option" "nat option" "val option"
  | SubmitCall "result list"
  | HandleDeleteCall nat "val list"
  | ConsoleError nat val

text \<open>
  The fields of the class.  \<^verbatim>\<open>allTasks\<close> and \<^verbatim>\<open>resultPool\<close> are handed out
  (by \<^verbatim>\<open>getAllTasks\<close>, and copied by \<^verbatim>\<open>getStatus\<close>), so these two fields hold
  the address of an array object and the arrays themselves are in the stores
  \<open>taskArrays\<close> and \<open>resultArrays\<close>: \<^verbatim>\<open>push\<close> and \<^verbatim>\<open>sort\<close> change the array
  at its address, \<^verbatim>\<open>filter\<close>, \<^verbatim>\<open>slice\<close> and \<^verbatim>\<open>[]\<close> make a new array.
  The other pools never leave the class before they are replaced and are plain lists.

  \<open>immediately\<close> is the property \<^verbatim>\<open>this.immediately\<close>; \<open>immediately_arg\<close> and
  \<open>executor_arg\<close> are the constructor's parameters \<^verbatim>\<open>immediately\<close> and
  \<^verbatim>\<open>executor\<close> (is one given), which the closures of the constructor capture.
\<close>

record pool =
  index :: nat
  concurrency :: number
  allTasks :: nat
  runningPool :: "proxy list"
  maintainOrder :: bool
  resultPool :: nat
  chunkResultPool :: "result list"
  restPool :: "seq_task list"
  isRunning :: bool
  paused :: bool
  immediately :: bool
  autoSubmit :: bool
  submit :: "(result list \<Rightarrow> submit_outcome) option"
  autoSchedule :: bool
  immediately_arg :: bool
  executor_arg :: bool
  taskArrays :: "nat \<Rightarrow> seq_task list"
  resultArrays :: "nat \<Rightarrow> result list"
  nextArray :: nat
  flights :: "nat \<Rightarrow> flight option"
  nextProxy :: nat
  calls :: "call list"

text \<open>The contents of the two arrays the class holds by address.\<close>

definition tasks_of :: "pool \<Rightarrow> seq_task list" where
  "tasks_of s = taskArrays s (allTasks s)"

definition results_of :: "pool \<Rightarrow> result list" where
  "results_of s = resultArrays s (resultPool s)"

definition set_tasks_new :: "seq_task list \<Rightarrow> pool \<Rightarrow> pool" where
  \<comment> \<open>\<^verbatim>\<open>this.allTasks = <new array>\<close>\<close>
  "set_tasks_new xs s =
     s\<lparr>allTasks := nextArray s, taskArrays := (taskArrays s)(nextArray s := xs),
       nextArray := Suc (nextArray s)\<rparr>"

definition set_results_new :: "result list \<Rightarrow> pool \<Rightarrow> pool" where
  \<comment> \<open>\<^verbatim>\<open>this.resultPool = <new array>\<close>\<close>
  "set_results_new xs s =
     s\<lparr>resultPool := nextArray s, resultArrays := (resultArrays s)(nextArray s := xs),
       nextArray := Suc (nextArray s)\<rparr>"

definition tasks_in_place :: "(seq_task list \<Rightarrow> seq_task list) \<Rightarrow> pool \<Rightarrow> pool" where
  \<comment> \<open>a method of the array \<^verbatim>\<open>this.allTasks\<close> that changes it in place\<close>
  "tasks_in_place g s = s\<lparr>taskArrays := (taskArrays s)(allTasks s := g (tasks_of s))\<rparr>"

definition results_in_place :: "(result list \<Rightarrow> result list) \<Rightarrow> pool \<Rightarrow> pool" where
  \<comment> \<open>a method of the array \<^verbatim>\<open>this.resultPool\<close> that changes it in place\<close>
  "results_in_place g s =
     s\<lparr>resultArrays := (resultArrays s)(resultPool s := g (results_of s))\<rparr>"

definition emit :: "call \<Rightarrow> pool \<Rightarrow> pool" where
  "emit c s = s\<lparr>calls := calls s @ [c]\<rparr>"

text \<open>\<^verbatim>\<open>xs.sort((a, b) => a.seq - b.seq)\<close>: ascending by seq, equal keys keep their order.\<close>

definition sort_by_seq :: "result list \<Rightarrow> result list" where
  "sort_by_seq xs = sort_key r_seq xs"

subsection \<open>The constructor\<close>

record config =
  cfg_taskPool :: "task list"
  cfg_executor :: bool
  cfg_concurrency :: number
  cfg_maintainOrder :: bool
  cfg_immediately :: bool
  cfg_autoSubmit :: bool
  cfg_submit :: "(result list \<Rightarrow> submit_outcome) option"

definition new_TaskPool :: "config \<Rightarrow> pool" where
  "new_TaskPool c =
     \<lparr>index = length (cfg_taskPool c),
      concurrency = cfg_concurrency c,
      allTasks = 0,
      runningPool = [],
      maintainOrder = cfg_maintainOrder c,
      resultPool = 1,
      chunkResultPool = [],
      restPool = number_from 0 (cfg_taskPool c),
      isRunning = False,
      paused = False,
      immediately = cfg_immediately c,
      autoSubmit = cfg_autoSubmit c,
      submit = cfg_submit c,
      autoSchedule = True,
      immediately_arg = cfg_immediately c,
      executor_arg = cfg_executor c,
      taskArrays = (\<lambda>_. [])(0 := number_from 0 (cfg_taskPool c)),
      resultArrays = (\<lambda>_. []),
      nextArray = 2,
      flights = (\<lambda>_. None),
      nextProxy = 0,
      calls = []\<rparr>"

subsection \<open>The scheduling pass \<^verbatim>\<open>executorFn\<close>\<close>

text \<open>
  One turn of the \<^verbatim>\<open>while\<close> loop: \<^verbatim>\<open>shift\<close> the head of \<^verbatim>\<open>restPool\<close>,
  build the proxy, \<^verbatim>\<open>push\<close> it on \<^verbatim>\<open>runningPool\<close>, call the body and attach
  the three callbacks (the new flight is \<open>Pending\<close>).
\<close>

definition launch :: "pool \<Rightarrow> pool" where
  "launch s =
     (case restPool s of
        [] \<Rightarrow> s
      | t # rest \<Rightarrow>
          let proxyTask = \<lparr>p_id = nextProxy s, p_body = st_body t, p_args = st_args t,
                           p_seq = st_seq t, p_handleDelete = None\<rparr>
          in s\<lparr>restPool := rest,
               runningPool := runningPool s @ [proxyTask],
               flights := (flights s)(nextProxy s \<mapsto>
                  \<lparr>f_proxy = proxyTask, f_deleted = False, f_phase = Pending\<rparr>),
               nextProxy := Suc (nextProxy s),
               calls := calls s @ [BodyCall (st_seq t) (st_body t) (st_args t)]\<rparr>)"

function fill :: "pool \<Rightarrow> pool" where
  "fill s =
     (if restPool s \<noteq> [] \<and> less_number (length (runningPool s)) (concurrency s)
      then fill (launch s) else s)"
  by pat_completeness auto
termination
  by (relation "measure (\<lambda>s. length (restPool s))")
     (auto simp: launch_def Let_def split: list.splits)

declare fill.simps [simp del]

definition executorFn :: "pool \<Rightarrow> pool" where
  "executorFn s = (if paused s then s else fill s)"

subsection \<open>The promise callbacks of a running proxy\<close>

definition remove_running :: "nat \<Rightarrow> pool \<Rightarrow> pool" where
  \<comment> \<open>\<^verbatim>\<open>this.runningPool = this.runningPool.filter(f => f.seq !== seq)\<close>\<close>
  "remove_running n s = s\<lparr>runningPool := filter (\<lambda>f. p_seq f \<noteq> n) (runningPool s)\<rparr>"

definition push_result :: "result \<Rightarrow> pool \<Rightarrow> pool" where
  \<comment> \<open>\<^verbatim>\<open>this.resultPool.push(r); this.chunkResultPool.push(r)\<close>\<close>
  "push_result r s =
     (let s1 = results_in_place (\<lambda>xs. xs @ [r]) s
      in s1\<lparr>chunkResultPool := chunkResultPool s1 @ [r]\<rparr>)"

text \<open>The body of the \<^verbatim>\<open>then\<close> callback, under its guard \<^verbatim>\<open>!proxyTask.deleted\<close>.\<close>

definition then_body :: "proxy \<Rightarrow> val \<Rightarrow> pool \<Rightarrow> pool" where
  "then_body proxyTask crtRes s =
     (let s1 = push_result \<lparr>r_seq = p_seq proxyTask, r_result = crtRes, r_status = Success\<rparr> s;
          s2 = (if immediately_arg s1 \<and> executor_arg s1
                then emit (ExecutorCall (results_of s1) (Some crtRes)
                             (Some (p_seq proxyTask)) None) s1
                else s1);
          s3 = remove_running (p_seq proxyTask) s2
      in executorFn s3)"

text \<open>The body of the \<^verbatim>\<open>catch\<close> callback, under the same guard.\<close>

definition catch_body :: "proxy \<Rightarrow> val \<Rightarrow> pool \<Rightarrow> pool" where
  "catch_body proxyTask err s =
     (let s1 = push_result \<lparr>r_seq = p_seq proxyTask, r_result = err, r_status = Error\<rparr> s;
          s2 = remove_running (p_seq proxyTask) s1;
          s3 = (if immediately_arg s2 \<and> executor_arg s2
                then emit (ExecutorCall (results_of s2) None
                             (Some (p_seq proxyTask)) (Some err)) s2
                else s2);
          s4 = emit (ConsoleError (p_seq proxyTask) err) s3
      in executorFn s4)"

text \<open>
  The body of a task fulfils with \<open>crtRes\<close> (rejects with \<open>err\<close>): the \<^verbatim>\<open>then\<close>
  (\<^verbatim>\<open>catch\<close>) callback of that proxy runs.  Only a pending flight can settle.
\<close>

definition fulfil :: "nat \<Rightarrow> val \<Rightarrow> pool \<Rightarrow> pool" where
  "fulfil i crtRes s =
     (case flights s i of
        None \<Rightarrow> s
      | Some f \<Rightarrow>
          if f_phase f \<noteq> Pending then s
          else let s0 = s\<lparr>flights := (flights s)(i \<mapsto> f\<lparr>f_phase := Settled\<rparr>)\<rparr>
               in if \<not> f_deleted f then then_body (f_proxy f) crtRes s0 else s0)"

definition reject :: "nat \<Rightarrow> val \<Rightarrow> pool \<Rightarrow> pool" where
  "reject i err s =
     (case flights s i of
        None \<Rightarrow> s
      | Some f \<Rightarrow>
          if f_phase f \<noteq> Pending then s
          else let s0 = s\<lparr>flights := (flights s)(i \<mapsto> f\<lparr>f_phase := Settled\<rparr>)\<rparr>
               in if \<not> f_deleted f then catch_body (f_proxy f) err s0 else s0)"

text \<open>
  The \<^verbatim>\<open>finally\<close> callback.  It has no guard on \<^verbatim>\<open>proxyTask.deleted\<close>.
  \<^verbatim>\<open>sort\<close> sorts the array in place and returns it.
\<close>

definition deliver_all :: "pool \<Rightarrow> pool" where
  "deliver_all s =
     (if \<not> immediately_arg s \<and> executor_arg s \<and> length (results_of s) > 0
      then let s1 = (if maintainOrder s then results_in_place sort_by_seq s else s)
           in emit (ExecutorCall (results_of s1) None None None) s1
      else s)"

text \<open>
  \<open>Inl\<close>: \<^verbatim>\<open>submit\<close> threw, and the rest of the callback did not run.
\<close>

definition auto_submit :: "pool \<Rightarrow> pool + pool" where
  "auto_submit s =
     (case submit s of
        None \<Rightarrow> Inr s
      | Some sub \<Rightarrow>
          if autoSubmit s \<and> length (chunkResultPool s) > 0
          then let s1 = (if maintainOrder s
                         then s\<lparr>chunkResultPool := sort_by_seq (chunkResultPool s)\<rparr> else s);
                   s2 = emit (SubmitCall (chunkResultPool s1)) s1
               in (case sub (chunkResultPool s1) of
                     Throws \<Rightarrow> Inl s2
                   | _ \<Rightarrow> Inr (s2\<lparr>chunkResultPool := []\<rparr>))
          else Inr s)"

definition finally_body :: "pool \<Rightarrow> pool" where
  "finally_body s =
     (if length (restPool s) = 0 \<and> length (runningPool s) = 0
      then (case auto_submit (deliver_all s) of
              Inl s' \<Rightarrow> s'
            | Inr s' \<Rightarrow> s'\<lparr>isRunning := False\<rparr>)
      else s)"

definition finalize :: "nat \<Rightarrow> pool \<Rightarrow> pool" where
  "finalize i s =
     (case flights s i of
        None \<Rightarrow> s
      | Some f \<Rightarrow>
          if f_phase f \<noteq> Settled then s
          else finally_body (s\<lparr>flights := (flights s)(i \<mapsto> f\<lparr>f_phase := Finished\<rparr>)\<rparr>))"

subsection \<open>The public methods\<close>

definition start :: "pool \<Rightarrow> pool" where
  "start s = (if isRunning s then s else executorFn (s\<lparr>isRunning := True\<rparr>))"

datatype add_arg = One task | Many "task list"

definition addTask :: "add_arg \<Rightarrow> pool \<Rightarrow> pool" where
  "addTask a s =
     (let s1 = (case a of
                  Many ts \<Rightarrow>
                    let tasksWithSeq = number_from (index s) ts;
                        s0 = s\<lparr>index := index s + length ts,
                               restPool := restPool s @ tasksWithSeq\<rparr>
                    in tasks_in_place (\<lambda>xs. xs @ tasksWithSeq) s0
                | One t \<Rightarrow>
                    let taskWithSeq = with_seq t (index s);
                        s0 = s\<lparr>index := Suc (index s),
                               restPool := restPool s @ [taskWithSeq]\<rparr>
                    in tasks_in_place (\<lambda>xs. xs @ [taskWithSeq]) s0)
      in if autoSchedule s1
         then (if isRunning s1 then executorFn s1 else start s1)
         else s1)"

definition call_handleDelete :: "nat option \<Rightarrow> val list \<Rightarrow> pool \<Rightarrow> pool" where
  \<comment> \<open>\<^verbatim>\<open>x.handleDelete?.(...(x.args ?? []))\<close>\<close>
  "call_handleDelete h as s =
     (case h of None \<Rightarrow> s | Some g \<Rightarrow> emit (HandleDeleteCall g as) s)"

definition mark_deleted :: "nat \<Rightarrow> pool \<Rightarrow> pool" where
  \<comment> \<open>\<^verbatim>\<open>runningTask.deleted = true\<close>, on the object with identity \<open>i\<close>\<close>
  "mark_deleted i s =
     (case flights s i of
        None \<Rightarrow> s
      | Some f \<Rightarrow> s\<lparr>flights := (flights s)(i \<mapsto> f\<lparr>f_deleted := True\<rparr>)\<rparr>)"

definition deleteTask :: "nat \<Rightarrow> pool \<Rightarrow> pool" where
  "deleteTask n s =
     (case find (\<lambda>f. p_seq f = n) (runningPool s) of
        Some runningTask \<Rightarrow>
          let s1 = mark_deleted (p_id runningTask) s;
              s2 = call_handleDelete (p_handleDelete runningTask) (p_args runningTask) s1;
              s3 = remove_running n s2;
              s4 = set_tasks_new (filter (\<lambda>f. st_seq f \<noteq> n) (tasks_of s3)) s3
          in executorFn s4
      | None \<Rightarrow>
          let s1 =
            (case find (\<lambda>f. st_seq f = n) (restPool s) of
               Some restTask \<Rightarrow>
                 let t1 = call_handleDelete (st_handleDelete restTask) (st_args restTask) s;
                     t2 = t1\<lparr>restPool := filter (\<lambda>f. st_seq f \<noteq> n) (restPool t1)\<rparr>
                 in set_tasks_new (filter (\<lambda>f. st_seq f \<noteq> n) (tasks_of t2)) t2
             | None \<Rightarrow>
                 (case find (\<lambda>f. st_seq f = n) (tasks_of s) of
                    Some doneTarget \<Rightarrow>
                      let t1 = call_handleDelete (st_handleDelete doneTarget)
                                 (st_args doneTarget) s;
                          t2 = set_tasks_new (filter (\<lambda>f. st_seq f \<noteq> n) (tasks_of t1)) t1;
                          t3 = set_results_new
                                 (filter (\<lambda>f. r_seq f \<noteq> n) (results_of t2)) t2
                      in t3\<lparr>chunkResultPool :=
                               filter (\<lambda>f. r_seq f \<noteq> n) (chunkResultPool t3)\<rparr>
                  | None \<Rightarrow> s))
          in executorFn s1)"

definition stop :: "pool \<Rightarrow> pool" where
  "stop s = s\<lparr>restPool := [], runningPool := [], isRunning := False, paused := False\<rparr>"

definition reset :: "pool \<Rightarrow> pool" where
  "reset s =
     (let s1 = set_tasks_new [] (s\<lparr>index := 0\<rparr>);
          s2 = set_results_new [] (s1\<lparr>runningPool := []\<rparr>)
      in s2\<lparr>chunkResultPool := [], restPool := [], isRunning := False, paused := False\<rparr>)"

definition setConcurrency :: "number \<Rightarrow> pool \<Rightarrow> pool" where
  "setConcurrency newConcurrency s = s\<lparr>concurrency := newConcurrency\<rparr>"

definition pause :: "pool \<Rightarrow> pool" where
  "pause s = s\<lparr>paused := True\<rparr>"

definition resume :: "pool \<Rightarrow> pool" where
  "resume s =
     (if \<not> paused s then s
      else let s1 = s\<lparr>paused := False\<rparr>
           in if \<not> isRunning s1 then start s1 else executorFn s1)"

definition isPaused :: "pool \<Rightarrow> bool" where
  "isPaused s = paused s"

definition setImmediately :: "bool \<Rightarrow> pool \<Rightarrow> pool" where
  "setImmediately newVal s = s\<lparr>immediately := newVal\<rparr>"

definition setAutoSchedule :: "bool \<Rightarrow> pool \<Rightarrow> pool" where
  "setAutoSchedule v s = s\<lparr>autoSchedule := v\<rparr>"

text \<open>
  \<^verbatim>\<open>getStatus\<close> returns a new object; its \<^verbatim>\<open>results\<close> is
  \<^verbatim>\<open>this.resultPool.slice()\<close>, a new array (at a fresh address) with the same
  elements.  \<^verbatim>\<open>getAllTasks\<close> returns \<^verbatim>\<open>this.allTasks\<close>, the array the class holds.
\<close>

record status_report =
  gs_total :: nat
  gs_running :: nat
  gs_waiting :: nat
  gs_finished :: nat
  gs_chunkFinished :: nat
  gs_results :: nat
  gs_paused :: bool

definition getStatus :: "pool \<Rightarrow> status_report \<times> pool" where
  "getStatus s =
     (\<lparr>gs_total = length (tasks_of s),
       gs_running = length (runningPool s),
       gs_waiting = length (restPool s),
       gs_finished = length (results_of s),
       gs_chunkFinished = length (chunkResultPool s),
       gs_results = nextArray s,
       gs_paused = paused s\<rparr>,
      s\<lparr>resultArrays := (resultArrays s)(nextArray s := results_of s),
        nextArray := Suc (nextArray s)\<rparr>)"

definition getAllTasks :: "pool \<Rightarrow> nat" where
  "getAllTasks s = allTasks s"

text \<open>
  Code outside the class that holds the address of an array can change that array in
  place (\<^verbatim>\<open>push\<close>, \<^verbatim>\<open>splice\<close>, \<^verbatim>\<open>length = 0\<close>, ...): \<open>g\<close> is the change.
\<close>

definition write_tasks :: "nat \<Rightarrow> (seq_task list \<Rightarrow> seq_task list) \<Rightarrow> pool \<Rightarrow> pool" where
  "write_tasks a g s = s\<lparr>taskArrays := (taskArrays s)(a := g (taskArrays s a))\<rparr>"

definition write_results :: "nat \<Rightarrow> (result list \<Rightarrow> result list) \<Rightarrow> pool \<Rightarrow> pool" where
  "write_results a g s = s\<lparr>resultArrays := (resultArrays s)(a := g (resultArrays s a))\<rparr>"

subsection \<open>Runs\<close>

text \<open>
  What can happen to a pool: a call of a public method that changes it, or a callback
  of a settling proxy.  (\<^verbatim>\<open>getStatus\<close> is among them because it makes a new array;
  the report it returns is dropped here.)  A run applies a list of these in order, each
  to completion.
\<close>

datatype event =
    AddTask add_arg
  | DeleteTask nat
  | Start
  | Stop
  | Reset
  | SetConcurrency number
  | Pause
  | Resume
  | SetImmediately bool
  | SetAutoSchedule bool
  | Fulfil nat val
  | Reject nat val
  | Finally nat
  | GetStatus

fun step :: "event \<Rightarrow> pool \<Rightarrow> pool" where
  "step (AddTask a) s = addTask a s"
| "step (DeleteTask n) s = deleteTask n s"
| "step Start s = start s"
| "step Stop s = stop s"
| "step Reset s = reset s"
| "step (SetConcurrency n) s = setConcurrency n s"
| "step Pause s = pause s"
| "step Resume s = resume s"
| "step (SetImmediately b) s = setImmediately b s"
| "step (SetAutoSchedule b) s = setAutoSchedule b s"
| "step (Fulfil i v) s = fulfil i v s"
| "step (Reject i e) s = reject i e s"
| "step (Finally i) s = finalize i s"
| "step GetStatus s = snd (getStatus s)"

fun run :: "event list \<Rightarrow> pool \<Rightarrow> pool" where
  "run [] s = s"
| "run (e # es) s = run es (step e s)"

subsection \<open>Notions the properties are stated with\<close>


text \<open>
  How many proxies the loop lets run under a bound: the least natural number that is
  not below it, \<open>max(\<lceil>q\<rceil>, 0)\<close> for a finite \<open>q\<close> (which is \<open>max(q, 0)\<close> when \<open>q\<close>
  is an integer), no limit (\<open>None\<close>) for \<^verbatim>\<open>Infinity\<close>, and 0 for \<^verbatim>\<open>-Infinity\<close>
  and \<^verbatim>\<open>NaN\<close>.  \<open>at_most n x\<close>: the length \<open>n\<close> is within that capacity.
\<close>

fun capacity :: "number \<Rightarrow> nat option" where
  "capacity (Finite q) = Some (nat \<lceil>q\<rceil>)"
| "capacity PosInfinity = None"
| "capacity NegInfinity = Some 0"
| "capacity NaN = Some 0"

definition at_most :: "nat \<Rightarrow> number \<Rightarrow> bool" where
  "at_most n x = (case capacity x of None \<Rightarrow> True | Some k \<Rightarrow> n \<le> k)"

text \<open>The bound on the running pool: \<open>|runningPool| \<le> max(\<lceil>concurrency\<rceil>, 0)\<close>.\<close>

definition within_bound :: "pool \<Rightarrow> bool" where
  "within_bound s \<longleftrightarrow> at_most (length (runningPool s)) (concurrency s)"


text \<open>The calls of task bodies among the recorded calls, and the call one task gives.\<close>

fun is_body_call :: "call \<Rightarrow> bool" where
  "is_body_call (BodyCall n b as) = True"
| "is_body_call c = False"

definition body_calls :: "pool \<Rightarrow> call list" where
  "body_calls s = filter is_body_call (calls s)"

definition body_call_of :: "seq_task \<Rightarrow> call" where
  "body_call_of t = BodyCall (st_seq t) (st_body t) (st_args t)"

fun is_submit_call :: "call \<Rightarrow> bool" where
  "is_submit_call (SubmitCall xs) = True"
| "is_submit_call c = False"

definition submit_calls :: "pool \<Rightarrow> call list" where
  "submit_calls s = filter is_submit_call (calls s)"

text \<open>The events that are callbacks of settling proxies, not calls of methods.\<close>

fun is_settlement :: "event \<Rightarrow> bool" where
  "is_settlement (Fulfil i v) = True"
| "is_settlement (Reject i e) = True"
| "is_settlement (Finally i) = True"
| "is_settlement e = False"

text \<open>The events in which the body of proxy \<open>i\<close> settles.\<close>

fun settles :: "nat \<Rightarrow> event \<Rightarrow> bool" where
  "settles i (Fulfil j v) = (i = j)"
| "settles i (Reject j e) = (i = j)"
| "settles i e = False"

definition others_only :: "nat \<Rightarrow> event list \<Rightarrow> bool" where
  "others_only i evs = list_all (\<lambda>e. \<not> settles i e) evs"

text \<open>
  How many waiting tasks one pass starts (\<open>room\<close>: all of them, or as many as the
  capacity of the bound leaves free), and how many a call of \<^verbatim>\<open>start()\<close> starts:
  none when a pass is marked in progress or the pool is paused.
\<close>

definition room :: "pool \<Rightarrow> nat" where
  "room s =
     (case capacity (concurrency s) of
        None \<Rightarrow> length (restPool s)
      | Some k \<Rightarrow> min (length (restPool s)) (k - length (runningPool s)))"

definition started_by_start :: "pool \<Rightarrow> nat" where
  "started_by_start s = (if isRunning s \<or> paused s then 0 else room s)"

text \<open>
  \<open>quiet s s'\<close>: from \<open>s\<close> to \<open>s'\<close> the pool stayed paused, no waiting task left
  \<^verbatim>\<open>restPool\<close>, no body was called and the running pool did not grow.
\<close>

definition quiet :: "pool \<Rightarrow> pool \<Rightarrow> bool" where
  "quiet s s' \<longleftrightarrow>
     restPool s' = restPool s \<and> paused s' \<and> body_calls s' = body_calls s \<and>
     length (runningPool s') \<le> length (runningPool s)"

text \<open>
  Every proxy in the running pool is an object of the store that is pending and not
  marked deleted.
\<close>

definition tracked :: "proxy list \<Rightarrow> (nat \<Rightarrow> flight option) \<Rightarrow> nat \<Rightarrow> bool" where
  "tracked rp fl np \<longleftrightarrow>
     (\<forall>p \<in> set rp. fl (p_id p) = Some \<lparr>f_proxy = p, f_deleted = False, f_phase = Pending\<rparr>
                    \<and> p_id p < np)"

definition running_tracked :: "pool \<Rightarrow> bool" where
  "running_tracked s \<longleftrightarrow> tracked (runningPool s) (flights s) (nextProxy s)"

text \<open>A pending proxy that is no longer in the running pool.\<close>

definition abandoned :: "nat \<Rightarrow> flight \<Rightarrow> pool \<Rightarrow> bool" where
  "abandoned i f s \<longleftrightarrow>
     flights s i = Some f \<and> f_phase f = Pending \<and> i < nextProxy s \<and>
     i \<notin> p_id ` set (runningPool s)"

text \<open>
  The pool after the events \<open>before\<close>, a call of \<^verbatim>\<open>stop()\<close> and the events
  \<open>later\<close>.
\<close>

definition after_stop :: "config \<Rightarrow> event list \<Rightarrow> event list \<Rightarrow> pool" where
  "after_stop c before later = run later (stop (run before (new_TaskPool c)))"

definition success_of :: "proxy \<Rightarrow> val \<Rightarrow> result" where
  "success_of p v = \<lparr>r_seq = p_seq p, r_result = v, r_status = Success\<rparr>"

definition error_of :: "proxy \<Rightarrow> val \<Rightarrow> result" where
  "error_of p e = \<lparr>r_seq = p_seq p, r_result = e, r_status = Error\<rparr>"

text \<open>
  The mode the callbacks deliver in: the constructor's \<^verbatim>\<open>immediately\<close>, with an
  \<^verbatim>\<open>executor\<close> given.
\<close>

definition immediate_mode :: "pool \<Rightarrow> bool" where
  "immediate_mode s \<longleftrightarrow> immediately_arg s \<and> executor_arg s"

text \<open>Drain, and the array \<^verbatim>\<open>submit\<close> is called with at a drain.\<close>

definition drained :: "pool \<Rightarrow> bool" where
  "drained s \<longleftrightarrow> restPool s = [] \<and> runningPool s = []"

definition submitted_chunk :: "pool \<Rightarrow> result list" where
  "submitted_chunk s =
     (if maintainOrder s then sort_by_seq (chunkResultPool s) else chunkResultPool s)"

text \<open>The two array fields point below the next free address.\<close>

definition heap_ok :: "pool \<Rightarrow> bool" where
  "heap_ok s \<longleftrightarrow> allTasks s < nextArray s \<and> resultPool s < nextArray s"

text \<open>
  Code outside the class writes the array at address \<open>a\<close> of the result store;
  \<open>detached a s\<close>: that address is in use and is not the array \<^verbatim>\<open>resultPool\<close> holds.
\<close>

definition poke :: "nat \<Rightarrow> result list \<Rightarrow> pool \<Rightarrow> pool" where
  "poke a xs s = s\<lparr>resultArrays := (resultArrays s)(a := xs)\<rparr>"

definition detached :: "nat \<Rightarrow> pool \<Rightarrow> bool" where
  "detached a s \<longleftrightarrow> a \<noteq> resultPool s \<and> a < nextArray s"

text \<open>
  The state reached from the constructor by the events \<open>evs\<close>; the report of a call of
  \<^verbatim>\<open>getStatus\<close> and the pool after that call.
\<close>

definition reached :: "config \<Rightarrow> event list \<Rightarrow> pool" where
  "reached c evs = run evs (new_TaskPool c)"

definition status_of :: "pool \<Rightarrow> status_report" where
  "status_of s = fst (getStatus s)"

definition after_status :: "pool \<Rightarrow> pool" where
  "after_status s = snd (getStatus s)"

definition strictly_ascending :: "result list \<Rightarrow> bool" where
  "strictly_ascending xs = sorted_wrt (<) (map r_seq xs)"

subsection \<open>Concrete pools\<close>

definition job :: "val list \<Rightarrow> task" where
  "job as = \<lparr>args = as, body = 0, handleDelete = None\<rparr>"

definition job_with_cleanup :: "val list \<Rightarrow> task" where
  "job_with_cleanup as = \<lparr>args = as, body = 0, handleDelete = Some 7\<rparr>"

definition two_jobs :: "task list" where
  "two_jobs = [job [1, 1], job [2, 2]]"

definition two_jobs_with_cleanup :: "task list" where
  "two_jobs_with_cleanup = [job_with_cleanup [1, 1], job_with_cleanup [2, 2]]"

text \<open>
  An \<^verbatim>\<open>executor\<close> is given, the bound is the integer \<open>n\<close>, every optional flag has
  its default.
\<close>

definition plain_config :: "task list \<Rightarrow> int \<Rightarrow> config" where
  "plain_config ts n =
     \<lparr>cfg_taskPool = ts, cfg_executor = True, cfg_concurrency = Finite (of_int n),
      cfg_maintainOrder = False,
      cfg_immediately = False, cfg_autoSubmit = False, cfg_submit = None\<rparr>"

definition three_jobs :: "task list" where
  "three_jobs = [job [1, 1], job [2, 2], job [3, 3]]"


definition fractional_three :: config where
  "fractional_three = (plain_config three_jobs 2)\<lparr>cfg_concurrency := Finite (3 / 2)\<rparr>"

definition ordered_immediate :: config where
  "ordered_immediate =
     (plain_config two_jobs 2)\<lparr>cfg_maintainOrder := True, cfg_immediately := True\<rparr>"

definition always_throws :: "result list \<Rightarrow> submit_outcome" where
  "always_throws xs = Throws"

definition always_rejects :: "result list \<Rightarrow> submit_outcome" where
  "always_rejects xs = ReturnsRejected"

definition throwing_submit :: config where
  "throwing_submit =
     (plain_config [job [1, 1]] 1)\<lparr>cfg_autoSubmit := True, cfg_submit := Some always_throws\<rparr>"

definition rejecting_submit :: config where
  "rejecting_submit =
     (plain_config [job [1, 1]] 1)\<lparr>cfg_autoSubmit := True, cfg_submit := Some always_rejects\<rparr>"

definition first_proxy :: proxy where
  "first_proxy = \<lparr>p_id = 0, p_body = 0, p_args = [1, 1], p_seq = 0, p_handleDelete = None\<rparr>"

definition first_success :: result where
  "first_success = \<lparr>r_seq = 0, r_result = 2, r_status = Success\<rparr>"

definition second_success :: result where
  "second_success = \<lparr>r_seq = 1, r_result = 4, r_status = Success\<rparr>"

text \<open>One task, started and fulfilled with 2; its \<^verbatim>\<open>finally\<close> callback has not run.\<close>

definition settled_pool :: "config \<Rightarrow> pool" where
  "settled_pool c = run [Start, Fulfil 0 2] (new_TaskPool c)"


definition later_events :: "event list" where
  "later_events = [AddTask (One (job [3, 3])), Fulfil 1 4]"

text \<open>The change \<^verbatim>\<open>array.length = 0\<close> of an array in place.\<close>

definition clear_array :: "seq_task list \<Rightarrow> seq_task list" where
  "clear_array xs = []"

section \<open>Lemmas\<close>

subsection \<open>The loop of the scheduling pass\<close>

lemma launch_fields [simp]:
  "concurrency (launch s) = concurrency s"
  "paused (launch s) = paused s"
  "isRunning (launch s) = isRunning s"
  by (simp_all add: launch_def Let_def split: list.splits)

lemma launch_Cons:
  "restPool s = t # rest \<Longrightarrow>
   restPool (launch s) = rest \<and>
   length (runningPool (launch s)) = Suc (length (runningPool s)) \<and>
   calls (launch s) = calls s @ [body_call_of t]"
  by (simp add: launch_def Let_def body_call_of_def)

lemma fill_stop: "\<not> (restPool s \<noteq> [] \<and> less_number (length (runningPool s)) (concurrency s)) \<Longrightarrow> fill s = s"
  by (subst fill.simps) auto

lemma fill_go: "restPool s \<noteq> [] \<Longrightarrow> less_number (length (runningPool s)) (concurrency s) \<Longrightarrow> fill s = fill (launch s)"
  by (subst fill.simps) auto

lemma less_number_capacity:
  "less_number n x \<longleftrightarrow> (case capacity x of None \<Rightarrow> True | Some k \<Rightarrow> n < k)"
proof (cases x)
  case (Finite q)
  have "(of_nat n < q) = (int n < \<lceil>q\<rceil>)"
    by (simp add: less_ceiling_iff)
  also have "\<dots> = (n < nat \<lceil>q\<rceil>)"
    by linarith
  finally show ?thesis using Finite by simp
qed simp_all

lemma room_0:
  "\<not> (restPool s \<noteq> [] \<and> less_number (length (runningPool s)) (concurrency s)) \<Longrightarrow>
   room s = 0"
  by (auto simp: room_def less_number_capacity split: option.splits)

lemma room_launch:
  "restPool s = t # rest \<Longrightarrow> less_number (length (runningPool s)) (concurrency s) \<Longrightarrow>
   room s = Suc (room (launch s))"
  using launch_Cons[of s t rest]
  by (auto simp: room_def less_number_capacity split: option.splits)

lemma fill_effect:
  "restPool (fill s) = drop (room s) (restPool s) \<and>
   length (runningPool (fill s)) = length (runningPool s) + room s \<and>
   calls (fill s) = calls s @ map body_call_of (take (room s) (restPool s)) \<and>
   paused (fill s) = paused s \<and> isRunning (fill s) = isRunning s"
proof (induction s rule: fill.induct)
  case (1 s)
  show ?case
  proof (cases "restPool s \<noteq> [] \<and> less_number (length (runningPool s)) (concurrency s)")
    case False
    then show ?thesis by (simp add: fill_stop room_0)
  next
    case True
    then obtain t rest where rest: "restPool s = t # rest"
      by (cases "restPool s") auto
    from True have go: "fill s = fill (launch s)" by (simp add: fill_go)
    from True rest have r: "room s = Suc (room (launch s))" by (simp add: room_launch)
    from 1[OF True] launch_Cons[OF rest] show ?thesis
      by (simp add: go r rest)
  qed
qed

lemma fill_frame:
  "resultPool (fill s) = resultPool s \<and> resultArrays (fill s) = resultArrays s \<and>
   chunkResultPool (fill s) = chunkResultPool s \<and> allTasks (fill s) = allTasks s \<and>
   taskArrays (fill s) = taskArrays s \<and> nextArray (fill s) = nextArray s"
proof (induction s rule: fill.induct)
  case (1 s)
  show ?case
  proof (cases "restPool s \<noteq> [] \<and> less_number (length (runningPool s)) (concurrency s)")
    case True
    have "resultPool (launch s) = resultPool s \<and> resultArrays (launch s) = resultArrays s \<and>
      chunkResultPool (launch s) = chunkResultPool s \<and> allTasks (launch s) = allTasks s \<and>
      taskArrays (launch s) = taskArrays s \<and> nextArray (launch s) = nextArray s"
      by (simp add: launch_def Let_def split: list.splits)
    with 1 True show ?thesis by (subst (1 2 3 4 5 6) fill.simps) simp
  next
    case False
    then have "fill s = s" by (subst fill.simps) auto
    then show ?thesis by simp
  qed
qed

lemma executorFn_frame:
  "resultPool (executorFn s) = resultPool s \<and> resultArrays (executorFn s) = resultArrays s \<and>
   chunkResultPool (executorFn s) = chunkResultPool s \<and> allTasks (executorFn s) = allTasks s \<and>
   taskArrays (executorFn s) = taskArrays s \<and> nextArray (executorFn s) = nextArray s"
  by (simp add: executorFn_def fill_frame)

lemma executorFn_results_of [simp]: "results_of (executorFn s) = results_of s"
  by (simp add: results_of_def executorFn_frame)

lemma executorFn_calls:
  "take (length (calls s)) (calls (executorFn s)) = calls s"
  using fill_effect[of s] by (simp add: executorFn_def)

lemma executorFn_calls_take:
  "n = length (calls s) \<Longrightarrow> xs = calls s \<Longrightarrow> take n (calls (executorFn s)) = xs"
  by (simp add: executorFn_calls)

subsection \<open>The bound on the running pool\<close>

lemma launch_running_length:
  "restPool s \<noteq> [] \<Longrightarrow> length (runningPool (launch s)) = Suc (length (runningPool s))"
  by (simp add: launch_def Let_def split: list.splits)

lemma at_most_0 [simp]: "at_most 0 x"
  by (simp add: at_most_def split: option.splits)

lemma at_most_mono: "m \<le> n \<Longrightarrow> at_most n x \<Longrightarrow> at_most m x"
  by (auto simp: at_most_def split: option.splits)

lemma at_most_Suc: "less_number n x \<Longrightarrow> at_most (Suc n) x"
  by (auto simp: at_most_def less_number_capacity split: option.splits)


lemma fill_within_bound: "within_bound s \<Longrightarrow> within_bound (fill s)"
proof (induction s rule: fill.induct)
  case (1 s)
  show ?case
  proof (cases "restPool s \<noteq> [] \<and> less_number (length (runningPool s)) (concurrency s)")
    case True
    then have "within_bound (launch s)"
      by (simp add: within_bound_def launch_running_length at_most_Suc)
    with 1 True show ?thesis by (subst fill.simps) simp
  next
    case False
    then have "fill s = s" by (rule fill_stop)
    with 1 show ?thesis by simp
  qed
qed

lemma wb_executorFn [simp]: "within_bound s \<Longrightarrow> within_bound (executorFn s)"
  by (simp add: executorFn_def fill_within_bound)

lemma wb_prims [simp]:
  "within_bound (emit c s) = within_bound s"
  "within_bound (set_tasks_new xs s) = within_bound s"
  "within_bound (set_results_new ys s) = within_bound s"
  "within_bound (tasks_in_place g s) = within_bound s"
  "within_bound (results_in_place h s) = within_bound s"
  "within_bound (push_result r s) = within_bound s"
  "within_bound (mark_deleted i s) = within_bound s"
  "within_bound (call_handleDelete k as s) = within_bound s"
  "within_bound (s\<lparr>isRunning := b\<rparr>) = within_bound s"
  "within_bound (s\<lparr>paused := b\<rparr>) = within_bound s"
  "within_bound (s\<lparr>immediately := b\<rparr>) = within_bound s"
  "within_bound (s\<lparr>autoSchedule := b\<rparr>) = within_bound s"
  "within_bound (s\<lparr>index := k'\<rparr>) = within_bound s"
  "within_bound (s\<lparr>restPool := ts\<rparr>) = within_bound s"
  "within_bound (s\<lparr>chunkResultPool := rs\<rparr>) = within_bound s"
  "within_bound (s\<lparr>flights := fl\<rparr>) = within_bound s"
  by (simp_all add: within_bound_def emit_def set_tasks_new_def set_results_new_def
      tasks_in_place_def results_in_place_def push_result_def mark_deleted_def
      call_handleDelete_def Let_def split: option.splits)

lemma wb_remove_running [simp]:
  assumes "within_bound s"
  shows "within_bound (remove_running n s)"
proof -
  have "length (runningPool (remove_running n s)) \<le> length (runningPool s)"
    by (simp add: remove_running_def)
  then have "at_most (length (runningPool (remove_running n s))) (concurrency s)"
    using assms unfolding within_bound_def by (rule at_most_mono)
  then show ?thesis
    by (simp add: within_bound_def remove_running_def)
qed







lemma wb_deliver_all [simp]: "within_bound (deliver_all s) = within_bound s"
  by (simp add: deliver_all_def Let_def)










subsection \<open>A paused pool\<close>

lemma executorFn_paused: "paused s \<Longrightarrow> executorFn s = s"
  by (simp add: executorFn_def)

lemma quiet_refl: "paused s \<Longrightarrow> quiet s s"
  by (simp add: quiet_def)

lemma quiet_trans: "quiet s t \<Longrightarrow> quiet t u \<Longrightarrow> quiet s u"
  by (auto simp: quiet_def)

lemma quiet_then_body: "paused s \<Longrightarrow> quiet s (then_body p v s)"
  by (simp add: then_body_def Let_def executorFn_paused quiet_def body_calls_def
      push_result_def results_in_place_def emit_def remove_running_def)

lemma quiet_catch_body: "paused s \<Longrightarrow> quiet s (catch_body p v s)"
  by (simp add: catch_body_def Let_def executorFn_paused quiet_def body_calls_def
      push_result_def results_in_place_def emit_def remove_running_def)

lemma quiet_fulfil: "paused s \<Longrightarrow> quiet s (fulfil i v s)"
proof -
  assume p: "paused s"
  have "quiet s (s\<lparr>flights := fl\<rparr>)" for fl
    using p by (simp add: quiet_def body_calls_def)
  moreover have "quiet (s\<lparr>flights := fl\<rparr>) (then_body q v (s\<lparr>flights := fl\<rparr>))" for fl q
    using p by (intro quiet_then_body) simp
  ultimately show ?thesis
    by (auto simp: fulfil_def Let_def quiet_refl[OF p] split: option.splits intro: quiet_trans)
qed

lemma quiet_reject: "paused s \<Longrightarrow> quiet s (reject i v s)"
proof -
  assume p: "paused s"
  have "quiet s (s\<lparr>flights := fl\<rparr>)" for fl
    using p by (simp add: quiet_def body_calls_def)
  moreover have "quiet (s\<lparr>flights := fl\<rparr>) (catch_body q v (s\<lparr>flights := fl\<rparr>))" for fl q
    using p by (intro quiet_catch_body) simp
  ultimately show ?thesis
    by (auto simp: reject_def Let_def quiet_refl[OF p] split: option.splits intro: quiet_trans)
qed

lemma quiet_deliver_all: "paused s \<Longrightarrow> quiet s (deliver_all s)"
  by (simp add: deliver_all_def Let_def quiet_def body_calls_def emit_def results_in_place_def)

lemma quiet_auto_submit:
  "paused s \<Longrightarrow> auto_submit s = Inl s' \<or> auto_submit s = Inr s' \<Longrightarrow> quiet s s'"
  by (auto simp: auto_submit_def Let_def quiet_def body_calls_def emit_def
      split: option.splits if_splits submit_outcome.splits)

lemma quiet_finally_body: "paused s \<Longrightarrow> quiet s (finally_body s)"
proof -
  assume p: "paused s"
  then have d: "quiet s (deliver_all s)" by (rule quiet_deliver_all)
  then have pd: "paused (deliver_all s)" by (simp add: quiet_def)
  show ?thesis
  proof (cases "auto_submit (deliver_all s)")
    case (Inl s')
    with pd have "quiet (deliver_all s) s'" by (simp add: quiet_auto_submit)
    with d Inl p show ?thesis
      by (auto simp: finally_body_def quiet_refl intro: quiet_trans)
  next
    case (Inr s')
    with pd have q: "quiet (deliver_all s) s'" by (simp add: quiet_auto_submit)
    then have "quiet s' (s'\<lparr>isRunning := False\<rparr>)" by (simp add: quiet_def body_calls_def)
    with d q Inr p show ?thesis
      by (auto simp: finally_body_def quiet_refl intro: quiet_trans)
  qed
qed

lemma quiet_finalize: "paused s \<Longrightarrow> quiet s (finalize i s)"
proof -
  assume p: "paused s"
  have a: "quiet s (s\<lparr>flights := fl\<rparr>)" for fl
    using p by (simp add: quiet_def body_calls_def)
  have "quiet (s\<lparr>flights := fl\<rparr>) (finally_body (s\<lparr>flights := fl\<rparr>))" for fl
    using p by (intro quiet_finally_body) simp
  with a show ?thesis
    by (auto simp: finalize_def quiet_refl[OF p] split: option.splits intro: quiet_trans)
qed

lemma quiet_step: "paused s \<Longrightarrow> is_settlement e \<Longrightarrow> quiet s (step e s)"
  by (cases e) (simp_all add: quiet_fulfil quiet_reject quiet_finalize)

lemma quiet_run: "paused s \<Longrightarrow> list_all is_settlement evs \<Longrightarrow> quiet s (run evs s)"
proof (induction evs arbitrary: s)
  case Nil
  then show ?case by (simp add: quiet_refl)
next
  case (Cons e es)
  then have q: "quiet s (step e s)" by (simp add: quiet_step)
  then have "paused (step e s)" by (simp add: quiet_def)
  with Cons have "quiet (step e s) (run es (step e s))" by simp
  with q show ?case by (auto intro: quiet_trans)
qed

lemma room_isRunning: "room (s\<lparr>isRunning := b\<rparr>) = room s"
  by (simp add: room_def split: option.splits)

lemma start_effect:
  "restPool (start s) = drop (started_by_start s) (restPool s) \<and>
   length (runningPool (start s)) = length (runningPool s) + started_by_start s \<and>
   calls (start s) = calls s @ map body_call_of (take (started_by_start s) (restPool s))"
  using fill_effect[of "s\<lparr>isRunning := True\<rparr>"]
  by (simp add: start_def executorFn_def started_by_start_def room_isRunning)

subsection \<open>Proxies in the running pool and abandoned proxies\<close>

lemma tracked_filter: "tracked rp fl np \<Longrightarrow> tracked (filter P rp) fl np"
  by (simp add: tracked_def)

lemma tracked_Nil [simp]: "tracked [] fl np"
  by (simp add: tracked_def)

lemma tracked_launch:
  "tracked rp fl np \<Longrightarrow>
   tracked (rp @ [q\<lparr>p_id := np\<rparr>])
     (fl(np \<mapsto> \<lparr>f_proxy = q\<lparr>p_id := np\<rparr>, f_deleted = False, f_phase = Pending\<rparr>)) (Suc np)"
  by (auto simp: tracked_def)

lemma tracked_settle:
  assumes "tracked rp fl np" and "fl i = Some f"
  shows "tracked (filter (\<lambda>q. p_seq q \<noteq> p_seq (f_proxy f)) rp) (fl(i \<mapsto> f')) np"
  using assms by (auto simp: tracked_def)

lemma tracked_settle_deleted:
  assumes "tracked rp fl np" and "fl i = Some f" and "f_deleted f"
  shows "tracked rp (fl(i \<mapsto> f')) np"
  using assms by (auto simp: tracked_def)

lemma tracked_finish:
  assumes "tracked rp fl np" and "fl i = Some f" and "f_phase f \<noteq> Pending"
  shows "tracked rp (fl(i \<mapsto> f')) np"
  using assms by (auto simp: tracked_def)

lemma tracked_same_id:
  assumes "tracked rp fl np" and "p \<in> set rp" and "q \<in> set rp" and "p_id p = p_id q"
  shows "p = q"
proof -
  from assms have "Some \<lparr>f_proxy = p, f_deleted = False, f_phase = Pending\<rparr> =
                   Some \<lparr>f_proxy = q, f_deleted = False, f_phase = Pending\<rparr>"
    unfolding tracked_def by metis
  then show ?thesis by simp
qed

lemma tracked_delete:
  assumes "tracked rp fl np" and "rt \<in> set rp"
  shows "tracked (filter (\<lambda>q. p_seq q \<noteq> p_seq rt) rp) (fl(p_id rt \<mapsto> f')) np"
proof -
  have "p_id p \<noteq> p_id rt" if "p \<in> set rp" and "p_seq p \<noteq> p_seq rt" for p
    using tracked_same_id[OF assms(1) that(1) assms(2)] that(2) by auto
  with assms(1) show ?thesis by (auto simp: tracked_def)
qed

lemma rt_launch: "running_tracked s \<Longrightarrow> running_tracked (launch s)"
  unfolding running_tracked_def launch_def Let_def
  by (auto split: list.splits dest: tracked_launch[where q="\<lparr>p_id = _, p_body = _, p_args = _, p_seq = _, p_handleDelete = None\<rparr>"])


lemma rt_fill: "running_tracked s \<Longrightarrow> running_tracked (fill s)"
proof (induction s rule: fill.induct)
  case (1 s)
  show ?case
  proof (cases "restPool s \<noteq> [] \<and> less_number (length (runningPool s)) (concurrency s)")
    case True
    with 1 show ?thesis by (subst fill.simps) (simp add: rt_launch)
  next
    case False
    then have "fill s = s" by (subst fill.simps) auto
    with 1 show ?thesis by simp
  qed
qed

lemma rt_executorFn: "running_tracked s \<Longrightarrow> running_tracked (executorFn s)"
  by (simp add: executorFn_def rt_fill)

lemma rt_start: "running_tracked s \<Longrightarrow> running_tracked (start s)"
  by (auto simp: start_def intro!: rt_executorFn) (simp add: running_tracked_def)

lemma rt_addTask: "running_tracked s \<Longrightarrow> running_tracked (addTask a s)"
  unfolding addTask_def Let_def
  by (auto split: add_arg.splits intro!: rt_executorFn rt_start)
     (simp_all add: running_tracked_def tasks_in_place_def)

lemma rt_resume: "running_tracked s \<Longrightarrow> running_tracked (resume s)"
  unfolding resume_def Let_def
  by (auto intro!: rt_executorFn rt_start) (simp_all add: running_tracked_def)

lemma find_SomeD: "find P xs = Some x \<Longrightarrow> x \<in> set xs \<and> P x"
  by (induction xs) (auto split: if_splits)

lemma rt_deleteTask: "running_tracked s \<Longrightarrow> running_tracked (deleteTask n s)"
proof -
  assume inv: "running_tracked s"
  show ?thesis
  proof (cases "find (\<lambda>f. p_seq f = n) (runningPool s)")
    case (Some rt)
    then have rt: "rt \<in> set (runningPool s)" "p_seq rt = n"
      using find_SomeD by fastforce+
    from inv rt(1) have fl: "flights s (p_id rt) = Some \<lparr>f_proxy = rt, f_deleted = False, f_phase = Pending\<rparr>"
      by (simp add: running_tracked_def tracked_def)
    from inv rt show ?thesis
      unfolding deleteTask_def Let_def Some option.case
      by (intro rt_executorFn)
         (auto simp: running_tracked_def mark_deleted_def fl call_handleDelete_def emit_def
            remove_running_def set_tasks_new_def split: option.splits intro: tracked_delete)
  next
    case None
    from inv show ?thesis
      unfolding deleteTask_def Let_def None option.case
      by (intro rt_executorFn)
         (auto simp: running_tracked_def call_handleDelete_def emit_def
            set_results_new_def set_tasks_new_def split: option.splits)
  qed
qed

lemma rt_fulfil: "running_tracked s \<Longrightarrow> running_tracked (fulfil i v s)"
  unfolding fulfil_def Let_def then_body_def
  by (auto split: option.splits intro!: rt_executorFn)
     (auto simp: running_tracked_def push_result_def results_in_place_def emit_def Let_def
        remove_running_def intro: tracked_settle tracked_settle_deleted)

lemma rt_reject: "running_tracked s \<Longrightarrow> running_tracked (reject i v s)"
  unfolding reject_def Let_def catch_body_def
  by (auto split: option.splits intro!: rt_executorFn)
     (auto simp: running_tracked_def push_result_def results_in_place_def emit_def Let_def
        remove_running_def intro: tracked_settle tracked_settle_deleted)

lemma finally_body_frame:
  "runningPool (finally_body s) = runningPool s \<and> flights (finally_body s) = flights s \<and>
   nextProxy (finally_body s) = nextProxy s"
  by (auto simp: finally_body_def auto_submit_def deliver_all_def emit_def results_in_place_def Let_def
      split: option.splits sum.splits submit_outcome.splits if_splits)

lemma rt_finalize: "running_tracked s \<Longrightarrow> running_tracked (finalize i s)"
  unfolding finalize_def
  by (auto split: option.splits simp: running_tracked_def finally_body_frame intro: tracked_finish)

lemma rt_step: "running_tracked s \<Longrightarrow> running_tracked (step e s)"
  by (cases e)
     (simp_all add: rt_addTask rt_deleteTask rt_start rt_resume rt_fulfil rt_reject rt_finalize,
      simp_all add: running_tracked_def stop_def reset_def setConcurrency_def pause_def
        setImmediately_def setAutoSchedule_def getStatus_def set_tasks_new_def
        set_results_new_def Let_def)

lemma rt_run: "running_tracked s \<Longrightarrow> running_tracked (run evs s)"
  by (induction evs arbitrary: s) (simp_all add: rt_step)

lemma rt_new: "running_tracked (new_TaskPool c)"
  by (simp add: running_tracked_def new_TaskPool_def)

lemma ab_launch: "abandoned i f s \<Longrightarrow> abandoned i f (launch s)"
  by (auto simp: abandoned_def launch_def Let_def split: list.splits)

lemma ab_fill: "abandoned i f s \<Longrightarrow> abandoned i f (fill s)"
proof (induction s rule: fill.induct)
  case (1 s)
  show ?case
  proof (cases "restPool s \<noteq> [] \<and> less_number (length (runningPool s)) (concurrency s)")
    case True
    with 1 show ?thesis by (subst fill.simps) (simp add: ab_launch)
  next
    case False
    then have "fill s = s" by (subst fill.simps) auto
    with 1 show ?thesis by simp
  qed
qed

lemma ab_executorFn: "abandoned i f s \<Longrightarrow> abandoned i f (executorFn s)"
  by (simp add: executorFn_def ab_fill)

lemma ab_cong:
  "flights s' = flights s \<Longrightarrow> nextProxy s' = nextProxy s \<Longrightarrow>
   set (runningPool s') \<subseteq> set (runningPool s) \<Longrightarrow> abandoned i f s \<Longrightarrow> abandoned i f s'"
  by (auto simp: abandoned_def)

lemma ab_start: "abandoned i f s \<Longrightarrow> abandoned i f (start s)"
  by (auto simp: start_def intro!: ab_executorFn) (simp add: abandoned_def)

lemma ab_addTask: "abandoned i f s \<Longrightarrow> abandoned i f (addTask a s)"
  unfolding addTask_def Let_def
  by (auto split: add_arg.splits intro!: ab_executorFn ab_start)
     (simp_all add: abandoned_def tasks_in_place_def)

lemma ab_resume: "abandoned i f s \<Longrightarrow> abandoned i f (resume s)"
  unfolding resume_def Let_def
  by (auto intro!: ab_executorFn ab_start) (simp_all add: abandoned_def)

lemma ab_deleteTask: "abandoned i f s \<Longrightarrow> abandoned i f (deleteTask n s)"
proof -
  assume ab: "abandoned i f s"
  show ?thesis
  proof (cases "find (\<lambda>f. p_seq f = n) (runningPool s)")
    case (Some rt)
    then have "rt \<in> set (runningPool s)"
      using find_SomeD by fastforce
    with ab have "p_id rt \<noteq> i" by (auto simp: abandoned_def)
    with ab show ?thesis
      unfolding deleteTask_def Let_def Some option.case
      by (intro ab_executorFn)
         (auto simp: abandoned_def mark_deleted_def call_handleDelete_def emit_def
            remove_running_def set_tasks_new_def split: option.splits)
  next
    case None
    from ab show ?thesis
      unfolding deleteTask_def Let_def None option.case
      by (intro ab_executorFn)
         (auto simp: abandoned_def call_handleDelete_def emit_def
            set_results_new_def set_tasks_new_def split: option.splits)
  qed
qed

lemma ab_fulfil: "abandoned i f s \<Longrightarrow> i \<noteq> j \<Longrightarrow> abandoned i f (fulfil j v s)"
  unfolding fulfil_def Let_def then_body_def
  by (auto split: option.splits intro!: ab_executorFn)
     (auto simp: abandoned_def push_result_def results_in_place_def emit_def Let_def
        remove_running_def)

lemma ab_reject: "abandoned i f s \<Longrightarrow> i \<noteq> j \<Longrightarrow> abandoned i f (reject j v s)"
  unfolding reject_def Let_def catch_body_def
  by (auto split: option.splits intro!: ab_executorFn)
     (auto simp: abandoned_def push_result_def results_in_place_def emit_def Let_def
        remove_running_def)

lemma ab_finalize: "abandoned i f s \<Longrightarrow> abandoned i f (finalize j s)"
  unfolding finalize_def
  by (auto split: option.splits simp: abandoned_def finally_body_frame)

lemma ab_step: "abandoned i f s \<Longrightarrow> \<not> settles i e \<Longrightarrow> abandoned i f (step e s)"
  by (cases e)
     (simp_all add: ab_addTask ab_deleteTask ab_start ab_resume ab_fulfil ab_reject ab_finalize,
      simp_all add: abandoned_def stop_def reset_def setConcurrency_def pause_def
        setImmediately_def setAutoSchedule_def getStatus_def set_tasks_new_def
        set_results_new_def Let_def)

lemma ab_run:
  "abandoned i f s \<Longrightarrow> list_all (\<lambda>e. \<not> settles i e) evs \<Longrightarrow> abandoned i f (run evs s)"
  by (induction evs arbitrary: s) (simp_all add: ab_step)

lemma ab_stop:
  "running_tracked s \<Longrightarrow> p \<in> set (runningPool s) \<Longrightarrow>
   abandoned (p_id p) \<lparr>f_proxy = p, f_deleted = False, f_phase = Pending\<rparr> (stop s)"
  by (simp add: running_tracked_def tracked_def abandoned_def stop_def)

subsection \<open>What a settlement of a live proxy does\<close>

lemma prim_fields [simp]:
  "results_of (push_result r s) = results_of s @ [r]"
  "chunkResultPool (push_result r s) = chunkResultPool s @ [r]"
  "calls (push_result r s) = calls s"
  "immediately_arg (push_result r s) = immediately_arg s"
  "executor_arg (push_result r s) = executor_arg s"
  "results_of (emit c s) = results_of s"
  "chunkResultPool (emit c s) = chunkResultPool s"
  "calls (emit c s) = calls s @ [c]"
  "results_of (remove_running n s) = results_of s"
  "chunkResultPool (remove_running n s) = chunkResultPool s"
  "calls (remove_running n s) = calls s"
  "immediately_arg (remove_running n s) = immediately_arg s"
  "executor_arg (remove_running n s) = executor_arg s"
  by (simp_all add: push_result_def Let_def results_in_place_def results_of_def emit_def
      remove_running_def)

lemma executorFn_chunk [simp]: "chunkResultPool (executorFn s) = chunkResultPool s"
  by (simp add: executorFn_frame)

lemma then_body_effect:
  "results_of (then_body p v s) =
     results_of s @ [\<lparr>r_seq = p_seq p, r_result = v, r_status = Success\<rparr>] \<and>
   chunkResultPool (then_body p v s) =
     chunkResultPool s @ [\<lparr>r_seq = p_seq p, r_result = v, r_status = Success\<rparr>] \<and>
   take (length (calls s) + (if immediately_arg s \<and> executor_arg s then 1 else 0))
        (calls (then_body p v s)) =
     calls s @ (if immediately_arg s \<and> executor_arg s
                then [ExecutorCall (results_of s @ [\<lparr>r_seq = p_seq p, r_result = v, r_status = Success\<rparr>])
                        (Some v) (Some (p_seq p)) None]
                else [])"
  unfolding then_body_def Let_def
  apply (intro conjI)
    apply simp
   apply simp
  apply (rule executorFn_calls_take)
   apply simp
  apply simp
  done

lemma catch_body_effect:
  "results_of (catch_body p e s) =
     results_of s @ [\<lparr>r_seq = p_seq p, r_result = e, r_status = Error\<rparr>] \<and>
   chunkResultPool (catch_body p e s) =
     chunkResultPool s @ [\<lparr>r_seq = p_seq p, r_result = e, r_status = Error\<rparr>] \<and>
   take (length (calls s) + (if immediately_arg s \<and> executor_arg s then 2 else 1))
        (calls (catch_body p e s)) =
     calls s @ (if immediately_arg s \<and> executor_arg s
                then [ExecutorCall (results_of s @ [\<lparr>r_seq = p_seq p, r_result = e, r_status = Error\<rparr>])
                        None (Some (p_seq p)) (Some e)]
                else []) @ [ConsoleError (p_seq p) e]"
  unfolding catch_body_def Let_def
  apply (intro conjI)
    apply simp
   apply simp
  apply (rule executorFn_calls_take)
   apply simp
  apply simp
  done

lemma fulfil_live:
  "flights s i = Some \<lparr>f_proxy = p, f_deleted = False, f_phase = Pending\<rparr> \<Longrightarrow>
   fulfil i v s = then_body p v
     (s\<lparr>flights := (flights s)(i \<mapsto> \<lparr>f_proxy = p, f_deleted = False, f_phase = Settled\<rparr>)\<rparr>)"
  by (simp add: fulfil_def)

lemma reject_live:
  "flights s i = Some \<lparr>f_proxy = p, f_deleted = False, f_phase = Pending\<rparr> \<Longrightarrow>
   reject i v s = catch_body p v
     (s\<lparr>flights := (flights s)(i \<mapsto> \<lparr>f_proxy = p, f_deleted = False, f_phase = Settled\<rparr>)\<rparr>)"
  by (simp add: reject_def)

subsection \<open>The drain\<close>

lemma deliver_all_frame:
  "chunkResultPool (deliver_all s) = chunkResultPool s \<and>
   submit_calls (deliver_all s) = submit_calls s \<and>
   submit (deliver_all s) = submit s \<and> autoSubmit (deliver_all s) = autoSubmit s \<and>
   maintainOrder (deliver_all s) = maintainOrder s"
  by (simp add: deliver_all_def Let_def emit_def results_in_place_def submit_calls_def)

lemma sort_by_seq_Nil_iff [simp]: "sort_by_seq xs = [] \<longleftrightarrow> xs = []"
proof -
  have "length (sort_by_seq xs) = length xs" by (simp add: sort_by_seq_def)
  then show ?thesis by (metis length_0_conv)
qed

lemma auto_submit_returns:
  assumes "autoSubmit s" and "submit s = Some sub"
    and "chunkResultPool s = [] \<or> sub (submitted_chunk s) \<noteq> Throws"
  shows "\<exists>s'. auto_submit s = Inr s' \<and> chunkResultPool s' = [] \<and>
           submit_calls s' = submit_calls s @
             (if chunkResultPool s = [] then [] else [SubmitCall (submitted_chunk s)])"
proof (cases "chunkResultPool s = []")
  case True
  with assms(2) show ?thesis by (simp add: auto_submit_def)
next
  case False
  with assms(3) have ok: "sub (submitted_chunk s) \<noteq> Throws" by simp
  show ?thesis
  proof (cases "maintainOrder s")
    case True
    with ok assms(1,2) False show ?thesis
      by (simp add: auto_submit_def Let_def emit_def submit_calls_def submitted_chunk_def
          split: submit_outcome.splits)
  next
    case no: False
    with ok assms(1,2) False show ?thesis
      by (simp add: auto_submit_def Let_def emit_def submit_calls_def submitted_chunk_def
          split: submit_outcome.splits)
  qed
qed

subsection \<open>The array store\<close>

lemma launch_heap: "allTasks (launch s) = allTasks s \<and> resultPool (launch s) = resultPool s \<and>
  nextArray (launch s) = nextArray s"
  by (simp add: launch_def Let_def split: list.splits)

lemma ho_fill: "heap_ok s \<Longrightarrow> heap_ok (fill s)"
proof (induction s rule: fill.induct)
  case (1 s)
  show ?case
  proof (cases "restPool s \<noteq> [] \<and> less_number (length (runningPool s)) (concurrency s)")
    case True
    from "1.prems" have "heap_ok (launch s)" by (simp add: heap_ok_def launch_heap)
    with 1 True show ?thesis by (subst fill.simps) simp
  next
    case False
    then have "fill s = s" by (subst fill.simps) auto
    with 1 show ?thesis by simp
  qed
qed

lemma ho_executorFn [simp]: "heap_ok s \<Longrightarrow> heap_ok (executorFn s)"
  by (simp add: executorFn_def ho_fill)

lemma ho_prims [simp]:
  "heap_ok (emit c s) = heap_ok s"
  "heap_ok (tasks_in_place g s) = heap_ok s"
  "heap_ok (results_in_place h s) = heap_ok s"
  "heap_ok (push_result r s) = heap_ok s"
  "heap_ok (remove_running n s) = heap_ok s"
  "heap_ok (mark_deleted i s) = heap_ok s"
  "heap_ok (call_handleDelete k as s) = heap_ok s"
  "heap_ok (s\<lparr>isRunning := b\<rparr>) = heap_ok s"
  "heap_ok (s\<lparr>paused := b\<rparr>) = heap_ok s"
  "heap_ok (s\<lparr>immediately := b\<rparr>) = heap_ok s"
  "heap_ok (s\<lparr>autoSchedule := b\<rparr>) = heap_ok s"
  "heap_ok (s\<lparr>index := k'\<rparr>) = heap_ok s"
  "heap_ok (s\<lparr>concurrency := z\<rparr>) = heap_ok s"
  "heap_ok (s\<lparr>restPool := ts\<rparr>) = heap_ok s"
  "heap_ok (s\<lparr>runningPool := ps\<rparr>) = heap_ok s"
  "heap_ok (s\<lparr>chunkResultPool := rs\<rparr>) = heap_ok s"
  "heap_ok (s\<lparr>flights := fl\<rparr>) = heap_ok s"
  by (simp_all add: heap_ok_def emit_def tasks_in_place_def results_in_place_def push_result_def
      remove_running_def mark_deleted_def call_handleDelete_def Let_def split: option.splits)

lemma ho_alloc [simp]:
  "heap_ok s \<Longrightarrow> heap_ok (set_tasks_new xs s)"
  "heap_ok s \<Longrightarrow> heap_ok (set_results_new ys s)"
  by (simp_all add: heap_ok_def set_tasks_new_def set_results_new_def)

lemma ho_start: "heap_ok s \<Longrightarrow> heap_ok (start s)"
  by (simp add: start_def)

lemma ho_addTask: "heap_ok s \<Longrightarrow> heap_ok (addTask a s)"
  by (simp add: addTask_def Let_def ho_start split: add_arg.splits)

lemma ho_deleteTask: "heap_ok s \<Longrightarrow> heap_ok (deleteTask n s)"
  by (simp add: deleteTask_def Let_def split: option.splits)

lemma ho_resume: "heap_ok s \<Longrightarrow> heap_ok (resume s)"
  by (simp add: resume_def Let_def ho_start)

lemma ho_fulfil: "heap_ok s \<Longrightarrow> heap_ok (fulfil i v s)"
  by (simp add: fulfil_def then_body_def Let_def split: option.splits)

lemma ho_reject: "heap_ok s \<Longrightarrow> heap_ok (reject i v s)"
  by (simp add: reject_def catch_body_def Let_def split: option.splits)

lemma ho_deliver_all [simp]: "heap_ok (deliver_all s) = heap_ok s"
  by (simp add: deliver_all_def Let_def)

lemma ho_auto_submit:
  "auto_submit s = Inl s' \<or> auto_submit s = Inr s' \<Longrightarrow> heap_ok s' = heap_ok s"
  by (auto simp: auto_submit_def Let_def split: option.splits if_splits submit_outcome.splits)

lemma ho_finally_body: "heap_ok s \<Longrightarrow> heap_ok (finally_body s)"
  by (auto simp: finally_body_def split: sum.splits
      dest: ho_auto_submit[OF disjI1] ho_auto_submit[OF disjI2])

lemma ho_finalize: "heap_ok s \<Longrightarrow> heap_ok (finalize i s)"
  by (simp add: finalize_def ho_finally_body split: option.splits)

lemma ho_getStatus: "heap_ok s \<Longrightarrow> heap_ok (snd (getStatus s))"
  by (simp add: getStatus_def heap_ok_def)

lemma ho_step: "heap_ok s \<Longrightarrow> heap_ok (step e s)"
  by (cases e)
     (simp_all add: ho_addTask ho_deleteTask ho_start ho_resume ho_fulfil ho_reject ho_finalize
        ho_getStatus stop_def reset_def setConcurrency_def pause_def setImmediately_def setAutoSchedule_def
        Let_def)

lemma ho_run: "heap_ok s \<Longrightarrow> heap_ok (run evs s)"
  by (induction evs arbitrary: s) (simp_all add: ho_step)

lemma ho_new: "heap_ok (new_TaskPool c)"
  by (simp add: heap_ok_def new_TaskPool_def)

subsection \<open>Writes to an array that the class does not hold\<close>

lemma write_results_poke: "write_results a g s = poke a (g (resultArrays s a)) s"
  by (simp add: write_results_def poke_def)

lemma poke_fields [simp]:
  "index (poke a xs s) = index s"
  "concurrency (poke a xs s) = concurrency s"
  "allTasks (poke a xs s) = allTasks s"
  "runningPool (poke a xs s) = runningPool s"
  "maintainOrder (poke a xs s) = maintainOrder s"
  "resultPool (poke a xs s) = resultPool s"
  "chunkResultPool (poke a xs s) = chunkResultPool s"
  "restPool (poke a xs s) = restPool s"
  "isRunning (poke a xs s) = isRunning s"
  "paused (poke a xs s) = paused s"
  "immediately (poke a xs s) = immediately s"
  "autoSubmit (poke a xs s) = autoSubmit s"
  "submit (poke a xs s) = submit s"
  "autoSchedule (poke a xs s) = autoSchedule s"
  "immediately_arg (poke a xs s) = immediately_arg s"
  "executor_arg (poke a xs s) = executor_arg s"
  "taskArrays (poke a xs s) = taskArrays s"
  "nextArray (poke a xs s) = nextArray s"
  "flights (poke a xs s) = flights s"
  "nextProxy (poke a xs s) = nextProxy s"
  "calls (poke a xs s) = calls s"
  "tasks_of (poke a xs s) = tasks_of s"
  by (simp_all add: poke_def tasks_of_def)

lemma poke_results_of [simp]: "detached a s \<Longrightarrow> results_of (poke a xs s) = results_of s"
  by (simp add: poke_def results_of_def detached_def)

lemma detached_poke [simp]: "detached a (poke a xs s) = detached a s"
  by (simp add: detached_def)

lemma poke_update [simp]:
  "(poke a xs s)\<lparr>isRunning := b\<rparr> = poke a xs (s\<lparr>isRunning := b\<rparr>)"
  "(poke a xs s)\<lparr>paused := b\<rparr> = poke a xs (s\<lparr>paused := b\<rparr>)"
  "(poke a xs s)\<lparr>immediately := b\<rparr> = poke a xs (s\<lparr>immediately := b\<rparr>)"
  "(poke a xs s)\<lparr>autoSchedule := b\<rparr> = poke a xs (s\<lparr>autoSchedule := b\<rparr>)"
  "(poke a xs s)\<lparr>concurrency := z\<rparr> = poke a xs (s\<lparr>concurrency := z\<rparr>)"
  "(poke a xs s)\<lparr>index := k\<rparr> = poke a xs (s\<lparr>index := k\<rparr>)"
  "(poke a xs s)\<lparr>restPool := ts\<rparr> = poke a xs (s\<lparr>restPool := ts\<rparr>)"
  "(poke a xs s)\<lparr>runningPool := ps\<rparr> = poke a xs (s\<lparr>runningPool := ps\<rparr>)"
  "(poke a xs s)\<lparr>chunkResultPool := rs\<rparr> = poke a xs (s\<lparr>chunkResultPool := rs\<rparr>)"
  "(poke a xs s)\<lparr>flights := fl\<rparr> = poke a xs (s\<lparr>flights := fl\<rparr>)"
  by (simp_all add: poke_def)

lemma detached_update [simp]:
  "detached a (s\<lparr>isRunning := b\<rparr>) = detached a s"
  "detached a (s\<lparr>paused := b\<rparr>) = detached a s"
  "detached a (s\<lparr>immediately := b\<rparr>) = detached a s"
  "detached a (s\<lparr>autoSchedule := b\<rparr>) = detached a s"
  "detached a (s\<lparr>concurrency := z\<rparr>) = detached a s"
  "detached a (s\<lparr>index := k\<rparr>) = detached a s"
  "detached a (s\<lparr>restPool := ts\<rparr>) = detached a s"
  "detached a (s\<lparr>runningPool := ps\<rparr>) = detached a s"
  "detached a (s\<lparr>chunkResultPool := rs\<rparr>) = detached a s"
  "detached a (s\<lparr>flights := fl\<rparr>) = detached a s"
  by (simp_all add: detached_def)

lemma detached_prims [simp]:
  "detached a (emit c s) = detached a s"
  "detached a (tasks_in_place g s) = detached a s"
  "detached a (results_in_place h s) = detached a s"
  "detached a (push_result r s) = detached a s"
  "detached a (remove_running n s) = detached a s"
  "detached a (mark_deleted i s) = detached a s"
  "detached a (call_handleDelete k as s) = detached a s"
  "detached a (launch s) = detached a s"
  by (simp_all add: detached_def emit_def tasks_in_place_def results_in_place_def
      push_result_def remove_running_def mark_deleted_def call_handleDelete_def launch_def
      Let_def split: option.splits list.splits)

lemma detached_alloc [simp]:
  "detached a s \<Longrightarrow> detached a (set_tasks_new ts s)"
  "detached a s \<Longrightarrow> detached a (set_results_new ys s)"
  "detached a s \<Longrightarrow> detached a (snd (getStatus s))"
  by (simp_all add: detached_def set_tasks_new_def set_results_new_def getStatus_def)

lemma poke_prims [simp]:
  "emit c (poke a xs s) = poke a xs (emit c s)"
  "tasks_in_place g (poke a xs s) = poke a xs (tasks_in_place g s)"
  "remove_running n (poke a xs s) = poke a xs (remove_running n s)"
  "mark_deleted i (poke a xs s) = poke a xs (mark_deleted i s)"
  "call_handleDelete k as (poke a xs s) = poke a xs (call_handleDelete k as s)"
  "launch (poke a xs s) = poke a xs (launch s)"
  "set_tasks_new ts (poke a xs s) = poke a xs (set_tasks_new ts s)"
  by (simp_all add: poke_def emit_def tasks_in_place_def tasks_of_def remove_running_def
      mark_deleted_def call_handleDelete_def launch_def set_tasks_new_def Let_def
      split: option.splits list.splits)

lemma poke_results_in_place [simp]:
  "detached a s \<Longrightarrow> results_in_place h (poke a xs s) = poke a xs (results_in_place h s)"
  by (simp add: poke_def results_in_place_def results_of_def detached_def fun_upd_twist)

lemma poke_push_result [simp]:
  "detached a s \<Longrightarrow> push_result r (poke a xs s) = poke a xs (push_result r s)"
  by (simp add: push_result_def Let_def)

lemma poke_set_results_new [simp]:
  "detached a s \<Longrightarrow> set_results_new ys (poke a xs s) = poke a xs (set_results_new ys s)"
  by (simp add: poke_def set_results_new_def detached_def fun_upd_twist)

lemma poke_getStatus [simp]:
  "detached a s \<Longrightarrow> snd (getStatus (poke a xs s)) = poke a xs (snd (getStatus s))"
  "detached a s \<Longrightarrow> fst (getStatus (poke a xs s)) = fst (getStatus s)"
  by (simp_all add: poke_def getStatus_def detached_def fun_upd_twist results_of_def tasks_of_def)

lemma poke_fill: "fill (poke a xs s) = poke a xs (fill s)"
proof (induction s rule: fill.induct)
  case (1 s)
  show ?case
  proof (cases "restPool s \<noteq> [] \<and> less_number (length (runningPool s)) (concurrency s)")
    case True
    then have "fill (poke a xs s) = fill (launch (poke a xs s))"
      by (intro fill_go) simp_all
    also have "\<dots> = poke a xs (fill (launch s))"
      using 1 True by simp
    finally show ?thesis using True by (simp add: fill_go)
  next
    case False
    then have "fill s = s" "fill (poke a xs s) = poke a xs s"
      by (simp_all add: fill_stop)
    then show ?thesis by simp
  qed
qed

lemma detached_fill [simp]: "detached a (fill s) = detached a s"
proof (induction s rule: fill.induct)
  case (1 s)
  show ?case
  proof (cases "restPool s \<noteq> [] \<and> less_number (length (runningPool s)) (concurrency s)")
    case True
    with 1 show ?thesis by (simp add: fill_go)
  next
    case False
    then show ?thesis by (simp add: fill_stop)
  qed
qed

lemma poke_executorFn [simp]: "executorFn (poke a xs s) = poke a xs (executorFn s)"
  by (simp add: executorFn_def poke_fill)

lemma detached_executorFn [simp]: "detached a (executorFn s) = detached a s"
  by (simp add: executorFn_def)

lemma poke_start [simp]: "start (poke a xs s) = poke a xs (start s)"
  by (simp add: start_def)

lemma detached_start [simp]: "detached a (start s) = detached a s"
  by (simp add: start_def)

lemma poke_addTask: "addTask t (poke a xs s) = poke a xs (addTask t s)"
  by (simp add: addTask_def Let_def split: add_arg.splits)

lemma detached_addTask: "detached a (addTask t s) = detached a s"
  by (simp add: addTask_def Let_def split: add_arg.splits)

lemma poke_deleteTask: "detached a s \<Longrightarrow> deleteTask n (poke a xs s) = poke a xs (deleteTask n s)"
  by (simp add: deleteTask_def Let_def split: option.splits)

lemma detached_deleteTask: "detached a s \<Longrightarrow> detached a (deleteTask n s)"
  by (simp add: deleteTask_def Let_def split: option.splits)

lemma poke_resume: "resume (poke a xs s) = poke a xs (resume s)"
  by (simp add: resume_def Let_def)

lemma detached_resume: "detached a (resume s) = detached a s"
  by (simp add: resume_def Let_def)

lemma poke_fulfil: "detached a s \<Longrightarrow> fulfil i v (poke a xs s) = poke a xs (fulfil i v s)"
  by (simp add: fulfil_def then_body_def Let_def split: option.splits)

lemma detached_fulfil: "detached a (fulfil i v s) = detached a s"
  by (simp add: fulfil_def then_body_def Let_def split: option.splits)

lemma poke_reject: "detached a s \<Longrightarrow> reject i v (poke a xs s) = poke a xs (reject i v s)"
  by (simp add: reject_def catch_body_def Let_def split: option.splits)

lemma detached_reject: "detached a (reject i v s) = detached a s"
  by (simp add: reject_def catch_body_def Let_def split: option.splits)

lemma poke_deliver_all [simp]:
  "detached a s \<Longrightarrow> deliver_all (poke a xs s) = poke a xs (deliver_all s)"
  by (simp add: deliver_all_def Let_def)

lemma detached_deliver_all [simp]: "detached a (deliver_all s) = detached a s"
  by (simp add: deliver_all_def Let_def)

lemma poke_finally_body:
  "detached a s \<Longrightarrow> finally_body (poke a xs s) = poke a xs (finally_body s)"
  by (simp add: finally_body_def auto_submit_def Let_def
      split: option.splits submit_outcome.splits)

lemma detached_finally_body: "detached a (finally_body s) = detached a s"
  by (simp add: finally_body_def auto_submit_def Let_def
      split: option.splits submit_outcome.splits)

lemma poke_finalize: "detached a s \<Longrightarrow> finalize i (poke a xs s) = poke a xs (finalize i s)"
  by (simp add: finalize_def poke_finally_body split: option.splits)

lemma detached_finalize: "detached a (finalize i s) = detached a s"
  by (simp add: finalize_def detached_finally_body split: option.splits)

lemma poke_step: "detached a s \<Longrightarrow> step e (poke a xs s) = poke a xs (step e s)"
  by (cases e)
     (simp_all add: poke_addTask poke_deleteTask poke_resume poke_fulfil poke_reject
        poke_finalize stop_def reset_def setConcurrency_def pause_def setImmediately_def
        setAutoSchedule_def Let_def)

lemma detached_step: "detached a s \<Longrightarrow> detached a (step e s)"
  by (cases e)
     (simp_all add: detached_addTask detached_deleteTask detached_resume detached_fulfil
        detached_reject detached_finalize stop_def reset_def setConcurrency_def pause_def
        setImmediately_def setAutoSchedule_def Let_def)

lemma poke_run: "detached a s \<Longrightarrow> run evs (poke a xs s) = poke a xs (run evs s)"
  by (induction evs arbitrary: s) (simp_all add: poke_step detached_step)

lemma detached_run: "detached a s \<Longrightarrow> detached a (run evs s)"
  by (induction evs arbitrary: s) (simp_all add: detached_step)

section \<open>The properties\<close>

subsection \<open>C1: the bound on the running pool\<close>




subsection \<open>C2: order of the delivered arrays\<close>

text \<open>
  C2 fails on the class.  With \<^verbatim>\<open>maintainOrder = true\<close> and
  \<^verbatim>\<open>immediately = true\<close>, two tasks run at once; the second fulfils first, then the
  first.  The \<^verbatim>\<open>then\<close> callback passes \<^verbatim>\<open>this.resultPool\<close> as it is, so the
  second call of \<^verbatim>\<open>executor\<close> receives the records in the order seq 1, seq 0, which
  is not ascending.
\<close>

theorem immediate_delivery_unsorted:
  "maintainOrder (run [Start, Fulfil 1 4, Fulfil 0 2] (new_TaskPool ordered_immediate)) \<and>
   calls (run [Start, Fulfil 1 4, Fulfil 0 2] (new_TaskPool ordered_immediate)) =
     [BodyCall 0 0 [1, 1], BodyCall 1 0 [2, 2],
      ExecutorCall [second_success] (Some 4) (Some 1) None,
      ExecutorCall [second_success, first_success] (Some 2) (Some 0) None] \<and>
   \<not> strictly_ascending [second_success, first_success]"
  by code_simp

subsection \<open>C3: \<^verbatim>\<open>setImmediately\<close>\<close>

text \<open>
  C3 fails on the class.  The pool is built with \<^verbatim>\<open>immediately = false\<close>, then
  \<^verbatim>\<open>setImmediately(true)\<close> is called before \<^verbatim>\<open>start()\<close>.  The property
  \<^verbatim>\<open>this.immediately\<close> is true, yet the fulfilment of the task calls no
  \<^verbatim>\<open>executor\<close>; the call comes at the drain, in the form of the deferred mode (no
  current result, no current seq): the callbacks read the constructor's parameter.
  The other way round, a pool built with \<^verbatim>\<open>immediately = true\<close> still calls
  \<^verbatim>\<open>executor\<close> at each completion after \<^verbatim>\<open>setImmediately(false)\<close>.
\<close>

theorem setImmediately_ignored:
  "immediately (run [SetImmediately True, Start, Fulfil 0 2]
      (new_TaskPool (plain_config [job [1, 1]] 1))) \<and>
   calls (run [SetImmediately True, Start, Fulfil 0 2]
      (new_TaskPool (plain_config [job [1, 1]] 1))) = [BodyCall 0 0 [1, 1]] \<and>
   calls (run [SetImmediately True, Start, Fulfil 0 2, Finally 0]
      (new_TaskPool (plain_config [job [1, 1]] 1))) =
     [BodyCall 0 0 [1, 1], ExecutorCall [first_success] None None None] \<and>
   \<not> immediately (run [SetImmediately False, Start, Fulfil 0 2]
      (new_TaskPool ordered_immediate)) \<and>
   calls (run [SetImmediately False, Start, Fulfil 0 2] (new_TaskPool ordered_immediate)) =
     [BodyCall 0 0 [1, 1], BodyCall 1 0 [2, 2],
      ExecutorCall [first_success] (Some 2) (Some 0) None]"
  by code_simp

subsection \<open>C4: \<^verbatim>\<open>pause()\<close> right after \<^verbatim>\<open>start()\<close>\<close>

text \<open>
  C4, as the class has it.  On a pool with an empty running pool, \<^verbatim>\<open>start()\<close>
  itself calls the bodies of the first \<open>k\<close> waiting tasks, where \<open>k\<close> is the smaller
  of their number \<open>N\<close> and \<open>max(\<lceil>concurrency\<rceil>, 0)\<close> (all \<open>N\<close> under the bound
  \<^verbatim>\<open>Infinity\<close>, none under \<^verbatim>\<open>NaN\<close>, and \<open>k = 0\<close> when a pass was already marked
  in progress or the pool was already paused).  When \<^verbatim>\<open>pause()\<close> is called
  next, then through any sequence of callbacks of settling tasks no further body is
  called, \<^verbatim>\<open>getStatus().waiting\<close> stays \<open>N - k\<close> and \<^verbatim>\<open>getStatus().running\<close>
  stays at most \<open>k\<close>.
\<close>

theorem pause_after_start:
  assumes "runningPool s = []" and "list_all is_settlement evs"
  shows "calls (pause (start s)) =
           calls s @ map body_call_of (take (started_by_start s) (restPool s)) \<and>
         body_calls (run evs (pause (start s))) = body_calls (pause (start s)) \<and>
         gs_waiting (fst (getStatus (run evs (pause (start s))))) =
           length (restPool s) - started_by_start s \<and>
         gs_running (fst (getStatus (run evs (pause (start s))))) \<le> started_by_start s"
proof -
  let ?p = "pause (start s)"
  have q: "quiet ?p (run evs ?p)"
    using assms(2) by (intro quiet_run) (simp_all add: pause_def)
  have "restPool ?p = drop (started_by_start s) (restPool s)"
    and "length (runningPool ?p) = started_by_start s"
    and "calls ?p = calls s @ map body_call_of (take (started_by_start s) (restPool s))"
    using start_effect[of s] assms(1) by (simp_all add: pause_def)
  with q show ?thesis
    by (simp add: quiet_def getStatus_def)
qed

text \<open>
  The claim as it was stated fails: with two waiting tasks and concurrency 1,
  \<^verbatim>\<open>start()\<close> has called the body of the first task before \<^verbatim>\<open>pause()\<close> runs;
  one task is waiting and one is running.
\<close>

theorem start_dispatches_before_pause:
  "length (restPool (new_TaskPool (plain_config two_jobs 1))) = 2 \<and>
   runningPool (new_TaskPool (plain_config two_jobs 1)) = [] \<and>
   calls (run [Start, Pause] (new_TaskPool (plain_config two_jobs 1))) = [BodyCall 0 0 [1, 1]] \<and>
   gs_waiting (fst (getStatus (run [Start, Pause] (new_TaskPool (plain_config two_jobs 1))))) = 1 \<and>
   gs_running (fst (getStatus (run [Start, Pause] (new_TaskPool (plain_config two_jobs 1))))) = 1"
  by code_simp

theorem pause_after_start_witness:
  "runningPool (new_TaskPool fractional_three) = [] \<and>
   list_all is_settlement [Fulfil 0 2, Finally 0] \<and>
   length (restPool (new_TaskPool fractional_three)) = 3 \<and>
   started_by_start (new_TaskPool fractional_three) = 2 \<and>
   calls (pause (start (new_TaskPool fractional_three))) =
     calls (new_TaskPool fractional_three) @
     map body_call_of (take (started_by_start (new_TaskPool fractional_three))
                         (restPool (new_TaskPool fractional_three))) \<and>
   body_calls (run [Fulfil 0 2, Finally 0] (pause (start (new_TaskPool fractional_three)))) =
     body_calls (pause (start (new_TaskPool fractional_three))) \<and>
   gs_waiting (fst (getStatus (run [Fulfil 0 2, Finally 0]
       (pause (start (new_TaskPool fractional_three)))))) =
     length (restPool (new_TaskPool fractional_three)) -
     started_by_start (new_TaskPool fractional_three) \<and>
   gs_running (fst (getStatus (run [Fulfil 0 2, Finally 0]
       (pause (start (new_TaskPool fractional_three)))))) \<le>
     started_by_start (new_TaskPool fractional_three)"
proof -
  have h1: "runningPool (new_TaskPool fractional_three) = []"
    by code_simp
  have h2: "list_all is_settlement [Fulfil 0 2, Finally 0]"
    by simp
  have n: "length (restPool (new_TaskPool fractional_three)) = 3"
    by code_simp
  have k: "started_by_start (new_TaskPool fractional_three) = 2"
    by code_simp
  from h1 h2 n k pause_after_start[OF h1 h2] show ?thesis
    by blast
qed

subsection \<open>C5: deleting a running task\<close>

text \<open>
  C5 fails on the class.  Two tasks with a \<^verbatim>\<open>handleDelete\<close>, concurrency 1; the first
  runs and \<^verbatim>\<open>deleteTask(0)\<close> is called.  The proxy is marked deleted, the second task
  is promoted, and the later settlement of the first leaves no record; but no
  \<^verbatim>\<open>handleDelete\<close> is ever called, because \<^verbatim>\<open>deleteTask\<close> looks the function up
  on the proxy, which has no such property.  Deleting the same task while it waits does
  call it, with the task's arguments.
\<close>

theorem running_delete_skips_cleanup:
  "handleDelete (job_with_cleanup [1, 1]) = Some 7 \<and>
   flights (run [Start, DeleteTask 0] (new_TaskPool (plain_config two_jobs_with_cleanup 1))) 0 =
     Some \<lparr>f_proxy = first_proxy, f_deleted = True, f_phase = Pending\<rparr> \<and>
   calls (run [Start, DeleteTask 0, Fulfil 0 2, Finally 0]
            (new_TaskPool (plain_config two_jobs_with_cleanup 1))) =
     [BodyCall 0 0 [1, 1], BodyCall 1 0 [2, 2]] \<and>
   results_of (run [Start, DeleteTask 0, Fulfil 0 2, Finally 0]
            (new_TaskPool (plain_config two_jobs_with_cleanup 1))) = [] \<and>
   chunkResultPool (run [Start, DeleteTask 0, Fulfil 0 2, Finally 0]
            (new_TaskPool (plain_config two_jobs_with_cleanup 1))) = [] \<and>
   calls (run [DeleteTask 0] (new_TaskPool (plain_config two_jobs_with_cleanup 1))) =
     [HandleDeleteCall 7 [1, 1], BodyCall 1 0 [2, 2]]"
  by code_simp

subsection \<open>C6: \<^verbatim>\<open>start()\<close> and the active flag\<close>

text \<open>
  C6 fails on the class.  A pool built with no task is started: it is at drain (both
  pools empty), and \<^verbatim>\<open>isRunning\<close> stays true, since only a \<^verbatim>\<open>finally\<close> callback
  clears it and no task will ever settle.  With automatic scheduling switched off, a
  task is added and \<^verbatim>\<open>start()\<close> is called again: it returns at once, no body is
  called and the task stays waiting.
\<close>

theorem empty_start_stays_active:
  "drained (run [Start] (new_TaskPool (plain_config [] 1))) \<and>
   isRunning (run [Start] (new_TaskPool (plain_config [] 1))) \<and>
   calls (run [Start, SetAutoSchedule False, AddTask (One (job [1, 1])), Start]
            (new_TaskPool (plain_config [] 1))) = [] \<and>
   length (restPool (run [Start, SetAutoSchedule False, AddTask (One (job [1, 1])), Start]
            (new_TaskPool (plain_config [] 1)))) = 1 \<and>
   runningPool (run [Start, SetAutoSchedule False, AddTask (One (job [1, 1])), Start]
            (new_TaskPool (plain_config [] 1))) = []"
  by code_simp

subsection \<open>C7: the chunk after a drain\<close>

text \<open>
  C7, as the class has it.  With \<^verbatim>\<open>autoSubmit\<close> enabled and a \<^verbatim>\<open>submit\<close> set, when
  the \<^verbatim>\<open>finally\<close> callback of a settled task finds the pool at drain, a non-empty
  chunk is passed to \<^verbatim>\<open>submit\<close> (sorted by seq under \<^verbatim>\<open>maintainOrder\<close>), and if
  that call returns, with a value or with a promise that fulfils or rejects, the chunk
  is empty afterwards.  An empty chunk is not submitted and stays empty.
\<close>

theorem chunk_empty_after_drain:
  assumes "autoSubmit s" and "submit s = Some sub"
    and "flights s i = Some f" and "f_phase f = Settled"
    and "drained s"
    and "chunkResultPool s = [] \<or> sub (submitted_chunk s) \<noteq> Throws"
  shows "chunkResultPool (finalize i s) = [] \<and>
         submit_calls (finalize i s) = submit_calls s @
           (if chunkResultPool s = [] then [] else [SubmitCall (submitted_chunk s)])"
proof -
  let ?s0 = "s\<lparr>flights := (flights s)(i \<mapsto> f\<lparr>f_phase := Finished\<rparr>)\<rparr>"
  let ?d = "deliver_all ?s0"
  have "submit_calls ?s0 = submit_calls s"
    by (simp add: submit_calls_def)
  then have d: "chunkResultPool ?d = chunkResultPool s" "submit_calls ?d = submit_calls s"
    "submit ?d = Some sub" "autoSubmit ?d" "submitted_chunk ?d = submitted_chunk s"
    using assms(1,2) by (simp_all add: deliver_all_frame submitted_chunk_def)
  from assms(6) have "chunkResultPool ?d = [] \<or> sub (submitted_chunk ?d) \<noteq> Throws"
    by (simp add: d)
  from auto_submit_returns[OF d(4) d(3) this]
  obtain s' where s': "auto_submit ?d = Inr s'" "chunkResultPool s' = []"
    "submit_calls s' = submit_calls s @
       (if chunkResultPool s = [] then [] else [SubmitCall (submitted_chunk s)])"
    by (auto simp: d)
  have "finalize i s = s'\<lparr>isRunning := False\<rparr>"
    using assms(3,4,5) s'(1) by (simp add: finalize_def finally_body_def drained_def)
  with s'(2,3) show ?thesis by (simp add: submit_calls_def)
qed

text \<open>
  The claim as it was stated, also for a \<^verbatim>\<open>submit\<close> whose call fails, does not hold:
  when \<^verbatim>\<open>submit\<close> throws, the assignment that clears the chunk is not reached.
\<close>

theorem throwing_submit_keeps_chunk:
  "autoSubmit (run [Start, Fulfil 0 2] (new_TaskPool throwing_submit)) \<and>
   drained (run [Start, Fulfil 0 2] (new_TaskPool throwing_submit)) \<and>
   calls (run [Start, Fulfil 0 2, Finally 0] (new_TaskPool throwing_submit)) =
     [BodyCall 0 0 [1, 1], ExecutorCall [first_success] None None None,
      SubmitCall [first_success]] \<and>
   chunkResultPool (run [Start, Fulfil 0 2, Finally 0] (new_TaskPool throwing_submit)) =
     [first_success]"
  by code_simp

theorem chunk_empty_after_drain_witness:
  "autoSubmit (settled_pool rejecting_submit) \<and>
   submit (settled_pool rejecting_submit) = Some always_rejects \<and>
   flights (settled_pool rejecting_submit) 0 =
     Some \<lparr>f_proxy = first_proxy, f_deleted = False, f_phase = Settled\<rparr> \<and>
   f_phase \<lparr>f_proxy = first_proxy, f_deleted = False, f_phase = Settled\<rparr> = Settled \<and>
   drained (settled_pool rejecting_submit) \<and>
   always_rejects (submitted_chunk (settled_pool rejecting_submit)) \<noteq> Throws \<and>
   chunkResultPool (settled_pool rejecting_submit) = [first_success] \<and>
   chunkResultPool (finalize 0 (settled_pool rejecting_submit)) = [] \<and>
   submit_calls (finalize 0 (settled_pool rejecting_submit)) = [SubmitCall [first_success]]"
proof -
  let ?s = "settled_pool rejecting_submit"
  let ?f = "\<lparr>f_proxy = first_proxy, f_deleted = False, f_phase = Settled\<rparr>"
  have h1: "autoSubmit ?s" by code_simp
  have h2: "submit ?s = Some always_rejects"
    by (simp add: settled_pool_def rejecting_submit_def plain_config_def job_def
        new_TaskPool_def start_def executorFn_def fill.simps launch_def Let_def fulfil_def
        then_body_def push_result_def results_in_place_def results_of_def emit_def
        remove_running_def with_seq_def)
  have h3: "flights ?s 0 = Some ?f" by code_simp
  have h4: "f_phase ?f = Settled" by simp
  have h5: "drained ?s" by code_simp
  have h6: "always_rejects (submitted_chunk ?s) \<noteq> Throws" by code_simp
  have c: "chunkResultPool ?s = [first_success]" by code_simp
  have sc: "submit_calls ?s = []" by code_simp
  have m: "submitted_chunk ?s = [first_success]" by code_simp
  from chunk_empty_after_drain[OF h1 h2 h3 h4 h5 disjI2[OF h6]]
  have "chunkResultPool (finalize 0 ?s) = []"
    and "submit_calls (finalize 0 ?s) = [SubmitCall [first_success]]"
    by (simp_all add: c sc m)
  with h1 h2 h3 h4 h5 h6 c show ?thesis by blast
qed

subsection \<open>C8: the settlement of a deleted proxy\<close>

text \<open>
  C8 fails on the class.  Two tasks run at once in deferred mode; the first is deleted
  while it runs, the second fulfils and its \<^verbatim>\<open>finally\<close> callback delivers the
  results at the drain.  When the deleted first task settles afterwards, its
  \<^verbatim>\<open>then\<close> callback does nothing, but its \<^verbatim>\<open>finally\<close> callback, which has no
  guard on \<^verbatim>\<open>deleted\<close>, finds the pool at drain and calls \<^verbatim>\<open>executor\<close> a second
  time.
\<close>

theorem deleted_settlement_delivers_again:
  "flights (run [Start, DeleteTask 0, Fulfil 1 4, Finally 1]
              (new_TaskPool (plain_config two_jobs 2))) 0 =
     Some \<lparr>f_proxy = first_proxy, f_deleted = True, f_phase = Pending\<rparr> \<and>
   calls (run [Start, DeleteTask 0, Fulfil 1 4, Finally 1]
            (new_TaskPool (plain_config two_jobs 2))) =
     [BodyCall 0 0 [1, 1], BodyCall 1 0 [2, 2],
      ExecutorCall [second_success] None None None] \<and>
   calls (run [Start, DeleteTask 0, Fulfil 1 4, Finally 1, Fulfil 0 2]
            (new_TaskPool (plain_config two_jobs 2))) =
     [BodyCall 0 0 [1, 1], BodyCall 1 0 [2, 2],
      ExecutorCall [second_success] None None None] \<and>
   calls (run [Start, DeleteTask 0, Fulfil 1 4, Finally 1, Fulfil 0 2, Finally 0]
            (new_TaskPool (plain_config two_jobs 2))) =
     [BodyCall 0 0 [1, 1], BodyCall 1 0 [2, 2],
      ExecutorCall [second_success] None None None,
      ExecutorCall [second_success] None None None]"
  by code_simp

subsection \<open>C9: arrays handed out\<close>

text \<open>
  C9, as the class has it.  In every state reached from the constructor,
  \<^verbatim>\<open>getStatus().results\<close> is a new array with the elements of \<^verbatim>\<open>resultPool\<close>,
  and a change of that array in place changes nothing the class does afterwards: after
  any later events the contents of \<^verbatim>\<open>resultPool\<close> and of \<^verbatim>\<open>allTasks\<close> and
  the calls made are the same as without the change.  \<^verbatim>\<open>getAllTasks()\<close> returns
  the array that \<^verbatim>\<open>allTasks\<close> holds, so a change of the returned array in place is
  that change of \<^verbatim>\<open>allTasks\<close>.
\<close>

theorem status_copy_tasks_live:
  "resultArrays (after_status (reached c evs)) (gs_results (status_of (reached c evs))) =
     results_of (reached c evs) \<and>
   results_of (run later (write_results (gs_results (status_of (reached c evs))) g
                            (after_status (reached c evs)))) =
     results_of (run later (after_status (reached c evs))) \<and>
   tasks_of (run later (write_results (gs_results (status_of (reached c evs))) g
                            (after_status (reached c evs)))) =
     tasks_of (run later (after_status (reached c evs))) \<and>
   calls (run later (write_results (gs_results (status_of (reached c evs))) g
                            (after_status (reached c evs)))) =
     calls (run later (after_status (reached c evs))) \<and>
   getAllTasks (reached c evs) = allTasks (reached c evs) \<and>
   tasks_of (write_tasks (getAllTasks (reached c evs)) h (reached c evs)) =
     h (tasks_of (reached c evs))"
proof -
  let ?s = "reached c evs"
  let ?a = "gs_results (status_of ?s)"
  have ok: "heap_ok ?s"
    by (simp add: reached_def ho_run ho_new)
  then have d: "detached ?a (after_status ?s)"
    by (simp add: heap_ok_def detached_def status_of_def after_status_def getStatus_def)
  have copy: "resultArrays (after_status ?s) ?a = results_of ?s"
    by (simp add: status_of_def after_status_def getStatus_def)
  have "run later (write_results ?a g (after_status ?s)) =
          poke ?a (g (results_of ?s)) (run later (after_status ?s))"
    using d by (simp add: write_results_poke copy poke_run)
  moreover have "detached ?a (run later (after_status ?s))"
    using d by (rule detached_run)
  ultimately have later:
    "results_of (run later (write_results ?a g (after_status ?s))) =
       results_of (run later (after_status ?s))"
    "tasks_of (run later (write_results ?a g (after_status ?s))) =
       tasks_of (run later (after_status ?s))"
    "calls (run later (write_results ?a g (after_status ?s))) =
       calls (run later (after_status ?s))"
    by simp_all
  have live: "getAllTasks ?s = allTasks ?s"
    "tasks_of (write_tasks (getAllTasks ?s) h ?s) = h (tasks_of ?s)"
    by (simp_all add: getAllTasks_def write_tasks_def tasks_of_def)
  from copy later live show ?thesis by simp
qed

text \<open>
  The claim as it was stated fails for \<^verbatim>\<open>getAllTasks()\<close>: emptying the returned
  array (\<^verbatim>\<open>length = 0\<close>) empties \<^verbatim>\<open>allTasks\<close>, and \<^verbatim>\<open>getStatus().total\<close>
  drops from 2 to 0.
\<close>

theorem getAllTasks_is_live:
  "gs_total (fst (getStatus (new_TaskPool (plain_config two_jobs 2)))) = 2 \<and>
   gs_total (fst (getStatus (write_tasks (getAllTasks (new_TaskPool (plain_config two_jobs 2)))
       clear_array (new_TaskPool (plain_config two_jobs 2))))) = 0"
  by code_simp

subsection \<open>C10: \<^verbatim>\<open>stop()\<close> and the tasks in flight\<close>

text \<open>
  C10.  Let a proxy be in the running pool when \<^verbatim>\<open>stop()\<close> is called, in any state
  reached from the constructor.  \<^verbatim>\<open>stop()\<close> does not mark it deleted, and nothing
  that happens afterwards can (whatever methods are called and whatever other tasks
  settle): when its body fulfils or rejects, the \<^verbatim>\<open>then\<close> or \<^verbatim>\<open>catch\<close> callback
  appends the success or error record to \<^verbatim>\<open>resultPool\<close> and to
  \<^verbatim>\<open>chunkResultPool\<close>, and in immediate mode calls \<^verbatim>\<open>executor\<close> with the result
  pool that ends in this record (a rejection also logs the error).
\<close>

theorem stop_keeps_settlement:
  assumes "p \<in> set (runningPool (run before (new_TaskPool c)))"
    and "others_only (p_id p) later"
  shows "flights (after_stop c before later) (p_id p) =
           Some \<lparr>f_proxy = p, f_deleted = False, f_phase = Pending\<rparr> \<and>
         results_of (fulfil (p_id p) v (after_stop c before later)) =
           results_of (after_stop c before later) @ [success_of p v] \<and>
         chunkResultPool (fulfil (p_id p) v (after_stop c before later)) =
           chunkResultPool (after_stop c before later) @ [success_of p v] \<and>
         take (length (calls (after_stop c before later)) +
                 (if immediate_mode (after_stop c before later) then 1 else 0))
              (calls (fulfil (p_id p) v (after_stop c before later))) =
           calls (after_stop c before later) @
           (if immediate_mode (after_stop c before later)
            then [ExecutorCall (results_of (after_stop c before later) @ [success_of p v])
                    (Some v) (Some (p_seq p)) None]
            else []) \<and>
         results_of (reject (p_id p) e (after_stop c before later)) =
           results_of (after_stop c before later) @ [error_of p e] \<and>
         chunkResultPool (reject (p_id p) e (after_stop c before later)) =
           chunkResultPool (after_stop c before later) @ [error_of p e] \<and>
         take (length (calls (after_stop c before later)) +
                 (if immediate_mode (after_stop c before later) then 2 else 1))
              (calls (reject (p_id p) e (after_stop c before later))) =
           calls (after_stop c before later) @
           (if immediate_mode (after_stop c before later)
            then [ExecutorCall (results_of (after_stop c before later) @ [error_of p e])
                    None (Some (p_seq p)) (Some e)]
            else []) @ [ConsoleError (p_seq p) e]"
proof -
  let ?t = "after_stop c before later"
  let ?f = "\<lparr>f_proxy = p, f_deleted = False, f_phase = Pending\<rparr>"
  let ?t' = "?t\<lparr>flights := (flights ?t)(p_id p \<mapsto> \<lparr>f_proxy = p, f_deleted = False, f_phase = Settled\<rparr>)\<rparr>"
  have "running_tracked (run before (new_TaskPool c))"
    by (simp add: rt_run rt_new)
  with assms(1) have "abandoned (p_id p) ?f (stop (run before (new_TaskPool c)))"
    by (simp add: ab_stop)
  with assms(2) have "abandoned (p_id p) ?f ?t"
    unfolding after_stop_def others_only_def by (simp add: ab_run)
  then have fl: "flights ?t (p_id p) = Some ?f"
    by (simp add: abandoned_def)
  have same: "results_of ?t' = results_of ?t" "chunkResultPool ?t' = chunkResultPool ?t"
    "calls ?t' = calls ?t" "immediately_arg ?t' = immediately_arg ?t"
    "executor_arg ?t' = executor_arg ?t"
    by (simp_all add: results_of_def)
  from then_body_effect[of p v ?t'] catch_body_effect[of p e ?t'] fl show ?thesis
    unfolding fulfil_live[OF fl] reject_live[OF fl] same success_of_def error_of_def
      immediate_mode_def
    by simp
qed

theorem stop_keeps_settlement_witness:
  "first_proxy \<in> set (runningPool (run [Start] (new_TaskPool ordered_immediate))) \<and>
   others_only (p_id first_proxy) later_events \<and>
   results_of (fulfil (p_id first_proxy) 2 (after_stop ordered_immediate [Start] later_events)) =
     [second_success, first_success] \<and>
   chunkResultPool (fulfil (p_id first_proxy) 2
       (after_stop ordered_immediate [Start] later_events)) =
     [second_success, first_success] \<and>
   results_of (reject (p_id first_proxy) 5 (after_stop ordered_immediate [Start] later_events)) =
     [second_success, error_of first_proxy 5]"
proof -
  let ?t = "after_stop ordered_immediate [Start] later_events"
  have h1: "first_proxy \<in> set (runningPool (run [Start] (new_TaskPool ordered_immediate)))"
    by code_simp
  have h2: "others_only (p_id first_proxy) later_events"
    by code_simp
  have r: "results_of ?t = [second_success]" by code_simp
  have c: "chunkResultPool ?t = [second_success]" by code_simp
  have s: "success_of first_proxy 2 = first_success" by code_simp
  from stop_keeps_settlement[OF h1 h2, of 2 5]
  have "results_of (fulfil (p_id first_proxy) 2 ?t) = [second_success, first_success]"
    and "chunkResultPool (fulfil (p_id first_proxy) 2 ?t) = [second_success, first_success]"
    and "results_of (reject (p_id first_proxy) 5 ?t) = [second_success, error_of first_proxy 5]"
    by (simp_all add: r c s del: run.simps)
  with h1 h2 show ?thesis by blast
qed

end
